theory Spec2Isabelle
  imports Main "HOL-Library.Word"
begin

section \<open>The torrent-folder watcher of qBittorrent (src/base/filesystemwatcher.cpp)\<close>

text \<open>
  A shallow embedding of \<^verbatim>\<open>FileSystemWatcher\<close> as it is built on Linux (neither
  \<^verbatim>\<open>Q_OS_WIN\<close>, \<^verbatim>\<open>Q_OS_HAIKU\<close> nor \<^verbatim>\<open>Q_OS_MAC\<close>). The object's members are
  a record, every member function takes the record and returns the updated one, the
  file system the functions read (and rename files in) is an explicit argument, and a
  \<^verbatim>\<open>torrentsAdded\<close> signal is a batch of paths in the list of emitted batches.
\<close>

subsection \<open>Constants of the anonymous namespace\<close>

definition CIFS_MAGIC_NUMBER :: "64 word" where
  "CIFS_MAGIC_NUMBER = 0xFF534D42"

definition NFS_SUPER_MAGIC :: "64 word" where
  "NFS_SUPER_MAGIC = 0x6969"

definition SMB_SUPER_MAGIC :: "64 word" where
  "SMB_SUPER_MAGIC = 0x517B"

definition WATCH_INTERVAL :: int where
  "WATCH_INTERVAL = 10000"

definition MAX_PARTIAL_RETRIES :: int where
  "MAX_PARTIAL_RETRIES = 5"

subsection \<open>Strings and name filters\<close>

text \<open>\<^verbatim>\<open>QString::endsWith\<close>, case sensitive as the source calls it.\<close>

definition endsWith :: "string \<Rightarrow> string \<Rightarrow> bool" where
  "endsWith s suf = (length suf \<le> length s \<and> drop (length s - length suf) s = suf)"

text \<open>
  \<^verbatim>\<open>QDir::entryList\<close> matches its name filters as wildcards over the whole file name,
  and without the flag \<^verbatim>\<open>QDir::CaseSensitive\<close>, which the source does not pass, it
  ignores case. \<open>*\<close> stands for any run of characters and \<open>?\<close> for one character;
  the two filters of the watcher use no bracket set.
\<close>

definition toLower :: "char \<Rightarrow> char" where
  "toLower c =
     (case map_of (zip ''ABCDEFGHIJKLMNOPQRSTUVWXYZ'' ''abcdefghijklmnopqrstuvwxyz'') c of
        Some l \<Rightarrow> l
      | None \<Rightarrow> c)"

fun wildcardMatch :: "string \<Rightarrow> string \<Rightarrow> bool" where
  "wildcardMatch [] s = (s = [])"
| "wildcardMatch (c # pat) [] = (c = CHR ''*'' \<and> wildcardMatch pat [])"
| "wildcardMatch (c # pat) (x # s) =
     (if c = CHR ''*'' then wildcardMatch pat (x # s) \<or> wildcardMatch (c # pat) s
      else (c = CHR ''?'' \<or> toLower c = toLower x) \<and> wildcardMatch pat s)"

definition matchesFilters :: "string list \<Rightarrow> string \<Rightarrow> bool" where
  "matchesFilters filters name = (filters = [] \<or> list_ex (\<lambda>f. wildcardMatch f name) filters)"

subsection \<open>The file system the watcher observes\<close>

text \<open>
  What \<^verbatim>\<open>statfs(2)\<close> can set \<^verbatim>\<open>errno\<close> to, as the \<^verbatim>\<open>switch\<close> of
  \<^verbatim>\<open>isNetworkFileSystem\<close> tells them apart; \<open>EOTHER\<close> is any other value.
\<close>

datatype errno =
  EACCES | EFAULT | EINTR | EIO | ELOOP | ENAMETOOLONG | ENOENT | ENOMEM | ENOSYS
  | ENOTDIR | EOVERFLOW | EOTHER int

text \<open>
  The file system is an argument of every operation: which directories exist
  (\<^verbatim>\<open>QDir::exists\<close>), what \<^verbatim>\<open>QDir::canonicalPath\<close> and \<^verbatim>\<open>QDir::absolutePath\<close>
  answer for the path of a directory (they depend on the links of the file system and
  on the current directory), what \<^verbatim>\<open>statfs\<close> answers for a path (an \<open>errno\<close>, or
  the \<^verbatim>\<open>f_type\<close> of the mount as the \<^verbatim>\<open>unsigned long\<close> it is compared as), the
  regular files: each absolute path with whether
  \<^verbatim>\<open>BitTorrent::TorrentInfo::loadFromFile(path).isValid()\<close> holds of its content now,
  and the renames the file system refuses for a reason of its own (permissions, a
  read-only mount). The watcher changes it only through \<^verbatim>\<open>QFile::rename\<close>; between
  two operations anything else may change it, so every operation takes the file system
  of its moment.
\<close>

record fsys =
  dirExists :: "string \<Rightarrow> bool"
  canonicalPath :: "string \<Rightarrow> string"
  absolutePath :: "string \<Rightarrow> string"
  statfs :: "string \<Rightarrow> errno + 64 word"
  files :: "(string \<times> bool) list"
  renameFails :: "string \<Rightarrow> string \<Rightarrow> bool"

definition fileExists :: "fsys \<Rightarrow> string \<Rightarrow> bool" where
  "fileExists fs p = (map_of (files fs) p \<noteq> None)"

definition isValid :: "fsys \<Rightarrow> string \<Rightarrow> bool" where
  "isValid fs p = (map_of (files fs) p = Some True)"

text \<open>
  \<^verbatim>\<open>QFile::rename\<close> refuses to overwrite: it fails, and changes nothing, when the
  old name does not exist, when the new name does, or when the file system refuses.
  The source ignores its result.
\<close>

definition rename :: "string \<Rightarrow> string \<Rightarrow> fsys \<Rightarrow> fsys" where
  "rename old new fs =
     (if fileExists fs old \<and> \<not> fileExists fs new \<and> \<not> renameFails fs old new
      then fs\<lparr>files := map (\<lambda>(p, v). if p = old then (new, v) else (p, v)) (files fs)\<rparr>
      else fs)"

text \<open>
  A \<^verbatim>\<open>QDir\<close> is kept as the path its constructor stores: the path given (the
  current directory \<^verbatim>\<open>.\<close> for an empty path), without one trailing separator.
  \<^verbatim>\<open>QDir::operator==\<close> takes two directories that store the
  same path for equal; failing that, two directories that both exist are equal when
  their canonical paths are, two that both do not exist when their absolute paths are,
  and a directory that exists differs from one that does not.
\<close>

definition QDir :: "string \<Rightarrow> string" where
  "QDir path =
     (let p = (if path = [] then ''.'' else path)
      in if endsWith p ''/'' \<and> 1 < length p then butlast p else p)"

definition dirEquals :: "fsys \<Rightarrow> string \<Rightarrow> string \<Rightarrow> bool" where
  "dirEquals fs a b =
     (a = b \<or>
      (if dirExists fs a then dirExists fs b \<and> canonicalPath fs a = canonicalPath fs b
       else \<not> dirExists fs b \<and> absolutePath fs a = absolutePath fs b))"

text \<open>\<^verbatim>\<open>QDir::absoluteFilePath\<close> of a file name, for a directory given by its absolute path.\<close>

definition dirPrefix :: "string \<Rightarrow> string" where
  "dirPrefix dir = (if endsWith dir ''/'' then dir else dir @ ''/'')"

definition absoluteFilePath :: "string \<Rightarrow> string \<Rightarrow> string" where
  "absoluteFilePath dir file = dirPrefix dir @ file"

text \<open>
  The name of a regular file directly in a directory (no recursion), and
  \<^verbatim>\<open>QDir::entryList\<close> with the filter \<^verbatim>\<open>QDir::Files\<close>: the regular files of the
  directory whose name matches a name filter, hidden files (a leading dot) left out
  since \<^verbatim>\<open>QDir::Hidden\<close> is not asked for, in the order the file system gives
  (\<^verbatim>\<open>QDir::Unsorted\<close>).
\<close>

definition childName :: "string \<Rightarrow> string \<Rightarrow> string option" where
  "childName dir p =
     (let pre = dirPrefix dir; name = drop (length pre) p
      in if take (length pre) p = pre \<and> name \<noteq> [] \<and> CHR ''/'' \<notin> set name
         then Some name else None)"

definition isHidden :: "string \<Rightarrow> bool" where
  "isHidden name = (case name of [] \<Rightarrow> False | c # _ \<Rightarrow> c = CHR ''.'')"

definition entryList :: "fsys \<Rightarrow> string list \<Rightarrow> string \<Rightarrow> string list" where
  "entryList fs filters dir =
     filter (\<lambda>name. \<not> isHidden name \<and> matchesFilters filters name)
       (List.map_filter (\<lambda>(p, v). childName dir p) (files fs))"

subsection \<open>The watcher's members\<close>

text \<open>
  A \<^verbatim>\<open>QTimer\<close>: its interval, whether it is single-shot, whether it runs, and whether
  \<^verbatim>\<open>deleteLater()\<close> has been called on it.
\<close>

record qtimer =
  interval :: int
  singleShot :: bool
  active :: bool
  deleteLaterCalled :: bool

text \<open>
  Modelled from the spec: the member declarations (filesystemwatcher.h) are not among
  the sources. The two timer members are handles that read as null whenever no timer
  object exists (the spec: the timer is "stopped and discarded", it "exists iff" its
  set is non-empty), which is what \<^verbatim>\<open>removePath\<close> and the destructor rely on when
  they \<^verbatim>\<open>delete\<close> a timer and test the member afterwards without resetting it: a
  handle is \<open>None\<close> or the timer it points to. \<^verbatim>\<open>m_watchedFolders\<close> is the indexed
  list the source reads with \<^verbatim>\<open>at(i)\<close>, \<^verbatim>\<open>removeAt(i)\<close> and \<^verbatim>\<open>count()\<close>, a
  directory being the path its \<^verbatim>\<open>QDir\<close> stores; \<^verbatim>\<open>m_partialTorrents\<close> is the dictionary from path to
  retry count, kept as an association list with distinct keys whose order is the order
  of iteration. \<open>watched\<close> is the set of directories of the \<^verbatim>\<open>QFileSystemWatcher\<close>
  base class.
\<close>

record watcher =
  m_filters :: "string list"
  m_partialTorrents :: "(string \<times> int) list"
  m_partialTorrentTimer :: "qtimer option"
  m_watchedFolders :: "string list"
  m_watchTimer :: "qtimer option"
  watched :: "string list"

text \<open>The constructor.\<close>

definition FileSystemWatcher :: watcher where
  "FileSystemWatcher =
     \<lparr>m_filters = [''*.torrent'', ''*.magnet''], m_partialTorrents = [],
      m_partialTorrentTimer = None, m_watchedFolders = [], m_watchTimer = None, watched = []\<rparr>"

definition contains :: "(string \<times> int) list \<Rightarrow> string \<Rightarrow> bool" where
  "contains d k = (k \<in> set (map fst d))"

text \<open>\<^verbatim>\<open>QHash::insert\<close>: a new key is added, the value of an existing key is replaced.\<close>

definition insert_entry :: "string \<Rightarrow> int \<Rightarrow> (string \<times> int) list \<Rightarrow> (string \<times> int) list" where
  "insert_entry k v d =
     (if contains d k then map (\<lambda>(k', v'). if k' = k then (k', v) else (k', v')) d
      else d @ [(k, v)])"

subsection \<open>isNetworkFileSystem\<close>

definition errnoMessage :: "errno \<Rightarrow> string" where
  "errnoMessage e =
     (case e of
        EACCES \<Rightarrow> ''Search permission is denied for a component of the path prefix of the path''
      | EFAULT \<Rightarrow> ''Buf or path points to an invalid address''
      | EINTR \<Rightarrow> ''This call was interrupted by a signal''
      | EIO \<Rightarrow> ''I/O Error''
      | ELOOP \<Rightarrow> ''Too many symlinks''
      | ENAMETOOLONG \<Rightarrow> ''path is too long''
      | ENOENT \<Rightarrow> ''The file referred by path does not exist''
      | ENOMEM \<Rightarrow> ''Insufficient kernel memory''
      | ENOSYS \<Rightarrow> ''The file system does not detect this call''
      | ENOTDIR \<Rightarrow> ''A component of the path is not a directory''
      | EOVERFLOW \<Rightarrow> ''Some values were too large to be represented in the struct''
      | EOTHER _ \<Rightarrow> ''Unknown error'')"

text \<open>A line written to \<^verbatim>\<open>std::cerr\<close>: a text, or the line that prints \<^verbatim>\<open>errno\<close>.\<close>

datatype diagnostic = Line string | Errno errno

text \<open>
  \<open>statfsFile\<close> is the local \<^verbatim>\<open>file\<close>, the name the query is made for. The result
  is the returned \<^verbatim>\<open>bool\<close> together with what was written to \<^verbatim>\<open>std::cerr\<close>; the
  function has no other way to report a failure.
\<close>

definition statfsFile :: "string \<Rightarrow> string" where
  "statfsFile path = (if \<not> endsWith path ''/'' then path @ ''/'' else path) @ ''.''"

definition isNetworkFileSystem :: "fsys \<Rightarrow> string \<Rightarrow> bool \<times> diagnostic list" where
  "isNetworkFileSystem fs path =
     (let file = statfsFile path
      in case statfs fs file of
           Inr f_type \<Rightarrow>
             (f_type = CIFS_MAGIC_NUMBER \<or> f_type = NFS_SUPER_MAGIC \<or> f_type = SMB_SUPER_MAGIC, [])
         | Inl e \<Rightarrow>
             (False,
              [Line (''Error: statfs() call failed for '' @ file @ ''. Supposing it is a local folder...''),
               Line (errnoMessage e), Errno e]))"

subsection \<open>Scanning a directory\<close>

definition startPartialTorrentTimer :: "watcher \<Rightarrow> watcher" where
  "startPartialTorrentTimer w =
     (case m_partialTorrentTimer w of
        None \<Rightarrow>
          w\<lparr>m_partialTorrentTimer :=
              Some \<lparr>interval = WATCH_INTERVAL, singleShot = True, active = True,
                    deleteLaterCalled = False\<rparr>\<rparr>
      | Some t \<Rightarrow> w)"

text \<open>The body of the \<^verbatim>\<open>foreach\<close> of \<^verbatim>\<open>addTorrentsFromDir\<close>, for one listed name.\<close>

definition addTorrentFile :: "fsys \<Rightarrow> string \<Rightarrow> watcher \<times> string list \<Rightarrow> string \<Rightarrow> watcher \<times> string list" where
  "addTorrentFile fs dir acc file =
     (case acc of (w, torrents) \<Rightarrow>
        (let fileAbsPath = absoluteFilePath dir file in
         if endsWith fileAbsPath ''.magnet'' then (w, torrents @ [fileAbsPath])
         else if isValid fs fileAbsPath then (w, torrents @ [fileAbsPath])
         else if \<not> contains (m_partialTorrents w) fileAbsPath
           then (w\<lparr>m_partialTorrents := insert_entry fileAbsPath 0 (m_partialTorrents w)\<rparr>, torrents)
         else (w, torrents)))"

text \<open>
  \<^verbatim>\<open>startPartialTorrentTimer\<close> opens with \<^verbatim>\<open>Q_ASSERT(!m_partialTorrents.isEmpty())\<close>;
  its only call is the one below, under the very test the assertion makes.
\<close>

definition addTorrentsFromDir :: "fsys \<Rightarrow> string \<Rightarrow> watcher \<times> string list \<Rightarrow> watcher \<times> string list" where
  "addTorrentsFromDir fs dir acc =
     (case foldl (addTorrentFile fs dir) acc (entryList fs (m_filters (fst acc)) dir) of
        (w, torrents) \<Rightarrow>
          (if m_partialTorrents w \<noteq> [] then startPartialTorrentTimer w else w, torrents))"

text \<open>A handler's signals: \<^verbatim>\<open>torrentsAdded\<close> is emitted only for a non-empty list.\<close>

definition report :: "string list \<Rightarrow> string list list" where
  "report torrents = (if torrents \<noteq> [] then [torrents] else [])"

definition scanLocalFolder :: "fsys \<Rightarrow> string \<Rightarrow> watcher \<Rightarrow> watcher \<times> string list list" where
  "scanLocalFolder fs path w =
     (case addTorrentsFromDir fs (QDir path) (w, []) of (w', torrents) \<Rightarrow> (w', report torrents))"

definition scanNetworkFolders :: "fsys \<Rightarrow> watcher \<Rightarrow> watcher \<times> string list list" where
  "scanNetworkFolders fs w =
     (case foldl (\<lambda>acc dir. addTorrentsFromDir fs dir acc) (w, []) (m_watchedFolders w) of
        (w', torrents) \<Rightarrow> (w', report torrents))"

subsection \<open>addPath, removePath, directories\<close>

definition addPath :: "fsys \<Rightarrow> string \<Rightarrow> watcher \<Rightarrow> watcher \<times> string list list" where
  "addPath fs path w =
     (let dir = QDir path in
      if \<not> dirExists fs dir then (w, [])
      else if fst (isNetworkFileSystem fs path) then
        (let w1 = w\<lparr>m_watchedFolders := m_watchedFolders w @ [dir]\<rparr> in
         (case m_watchTimer w1 of
            None \<Rightarrow>
              w1\<lparr>m_watchTimer :=
                   Some \<lparr>interval = WATCH_INTERVAL, singleShot = False, active = True,
                         deleteLaterCalled = False\<rparr>\<rparr>
          | Some t \<Rightarrow> w1, []))
      else
        scanLocalFolder fs path
          (w\<lparr>watched := (if path \<in> set (watched w) then watched w else watched w @ [path])\<rparr>))"

text \<open>
  The loop of \<^verbatim>\<open>removePath\<close>: the list without the first entry the test holds of,
  or \<open>None\<close> when it holds of no entry.
\<close>

fun removeFirst :: "('a \<Rightarrow> bool) \<Rightarrow> 'a list \<Rightarrow> 'a list option" where
  "removeFirst P [] = None"
| "removeFirst P (x # xs) = (if P x then Some xs else map_option ((#) x) (removeFirst P xs))"

text \<open>
  \<^verbatim>\<open>removePath\<close> removes the first entry of \<^verbatim>\<open>m_watchedFolders\<close> equal, as a
  \<^verbatim>\<open>QDir\<close>, to the directory of the path, and returns; \<^verbatim>\<open>delete m_watchTimer\<close>
  destroys the timer, after which the handle is null. With no such entry the path goes
  to \<^verbatim>\<open>QFileSystemWatcher::removePath\<close>.
\<close>

definition removePath :: "fsys \<Rightarrow> string \<Rightarrow> watcher \<Rightarrow> watcher" where
  "removePath fs path w =
     (case removeFirst (\<lambda>d. dirEquals fs d (QDir path)) (m_watchedFolders w) of
        Some folders \<Rightarrow>
          w\<lparr>m_watchedFolders := folders,
            m_watchTimer := (if folders = [] then None else m_watchTimer w)\<rparr>
      | None \<Rightarrow> w\<lparr>watched := removeAll path (watched w)\<rparr>)"

definition directories :: "fsys \<Rightarrow> watcher \<Rightarrow> string list" where
  "directories fs w =
     (if m_watchTimer w \<noteq> None then map (canonicalPath fs) (m_watchedFolders w) else []) @ watched w"

subsection \<open>processPartialTorrents\<close>

text \<open>
  The predicate given to \<^verbatim>\<open>Dict::removeIf\<close>: from a path, its retry count and what
  the closure captures and touches (\<^verbatim>\<open>noLongerPartial\<close> and the file system), whether
  the entry is to be removed, the count as it leaves it, and the captured state.
  \<^verbatim>\<open>++value\<close> runs only below \<^verbatim>\<open>MAX_PARTIAL_RETRIES\<close>, so it cannot overflow.
\<close>

definition stillPartial :: "string \<Rightarrow> int \<Rightarrow> string list \<times> fsys \<Rightarrow> (bool \<times> int) \<times> (string list \<times> fsys)" where
  "stillPartial torrentPath v st =
     (case st of (noLongerPartial, fs) \<Rightarrow>
        if \<not> fileExists fs torrentPath then ((True, v), (noLongerPartial, fs))
        else if isValid fs torrentPath then ((True, v), (noLongerPartial @ [torrentPath], fs))
        else if v \<ge> MAX_PARTIAL_RETRIES
          then ((True, v), (noLongerPartial, rename torrentPath (torrentPath @ ''.invalid'') fs))
        else ((False, v + 1), (noLongerPartial, fs)))"

text \<open>
  Modelled from the spec: \<^verbatim>\<open>Dict::removeIf\<close> (algorithm.h) is not among the sources.
  It visits every entry of the dictionary once, in the dictionary's order, calls the
  predicate on the key and (by reference) the value, and erases the entry when the
  predicate returns true (the spec: "transitions evaluated once per reconciliation
  tick, independently per path").
\<close>

fun removeIf :: "('k \<Rightarrow> 'v \<Rightarrow> 's \<Rightarrow> (bool \<times> 'v) \<times> 's) \<Rightarrow> ('k \<times> 'v) list \<Rightarrow> 's \<Rightarrow> ('k \<times> 'v) list \<times> 's" where
  "removeIf p [] s = ([], s)"
| "removeIf p ((k, v) # d) s =
     (case p k v s of
        ((rm, v'), s') \<Rightarrow>
          (case removeIf p d s' of (d', s'') \<Rightarrow> (if rm then d' else (k, v') # d', s'')))"

text \<open>
  The slot of the reconciliation timer. It dereferences \<^verbatim>\<open>m_partialTorrentTimer\<close>:
  with a null handle the program crashes, the result \<open>None\<close>. Otherwise the result
  is the watcher, the file system after the renames, and the signals emitted.
\<close>

definition processPartialTorrents :: "fsys \<Rightarrow> watcher \<Rightarrow> (watcher \<times> fsys \<times> string list list) option" where
  "processPartialTorrents fs w =
     (case removeIf stillPartial (m_partialTorrents w) ([], fs) of
        (d, (noLongerPartial, fs')) \<Rightarrow>
          (case m_partialTorrentTimer w of
             None \<Rightarrow> None
           | Some t \<Rightarrow>
               Some (w\<lparr>m_partialTorrents := d,
                       m_partialTorrentTimer :=
                         Some (if d = [] then t\<lparr>active := False, deleteLaterCalled := True\<rparr>
                               else t\<lparr>interval := WATCH_INTERVAL, active := True\<rparr>)\<rparr>,
                     fs', report noLongerPartial)))"

subsection \<open>The event loop\<close>

text \<open>
  What reaches the watcher: the two calls of its public interface, the
  \<^verbatim>\<open>directoryChanged\<close> signal of the base class (connected to \<^verbatim>\<open>scanLocalFolder\<close>)
  and the timeouts of the two timers (connected to \<^verbatim>\<open>scanNetworkFolders\<close> and to
  \<^verbatim>\<open>processPartialTorrents\<close>).
\<close>

datatype event =
  AddPath string | RemovePath string | DirectoryChanged string | WatchTimeout | PartialTimeout

definition handle :: "fsys \<Rightarrow> event \<Rightarrow> watcher \<Rightarrow> (watcher \<times> fsys \<times> string list list) option" where
  "handle fs ev w =
     (case ev of
        AddPath path \<Rightarrow> (case addPath fs path w of (w', out) \<Rightarrow> Some (w', fs, out))
      | RemovePath path \<Rightarrow> Some (removePath fs path w, fs, [])
      | DirectoryChanged path \<Rightarrow> (case scanLocalFolder fs path w of (w', out) \<Rightarrow> Some (w', fs, out))
      | WatchTimeout \<Rightarrow> (case scanNetworkFolders fs w of (w', out) \<Rightarrow> Some (w', fs, out))
      | PartialTimeout \<Rightarrow> processPartialTorrents fs w)"

text \<open>
  \<^verbatim>\<open>QObject::deleteLater\<close> destroys the object when control returns to the event
  loop; the handle then reads as null.
\<close>

definition returnToEventLoop :: "watcher \<Rightarrow> watcher" where
  "returnToEventLoop w =
     (case m_partialTorrentTimer w of
        None \<Rightarrow> w
      | Some t \<Rightarrow> if deleteLaterCalled t then w\<lparr>m_partialTorrentTimer := None\<rparr> else w)"

text \<open>
  One event: the handler runs to completion on the file system of the moment, then
  control returns to the event loop.
\<close>

definition dispatch :: "fsys \<Rightarrow> event \<Rightarrow> watcher \<Rightarrow> (watcher \<times> fsys \<times> string list list) option" where
  "dispatch fs ev w =
     (case handle fs ev w of
        None \<Rightarrow> None
      | Some (w', fs', out) \<Rightarrow> Some (returnToEventLoop w', fs', out))"

text \<open>
  The states the watcher can be in between two events each of which ends in the event
  loop, whatever the file system does.
\<close>

inductive reachable :: "watcher \<Rightarrow> bool" where
  reachable_init: "reachable FileSystemWatcher"
| reachable_step: "reachable w \<Longrightarrow> dispatch fs ev w = Some (w', fs', out) \<Longrightarrow> reachable w'"

text \<open>
  The event dispatcher may call several handlers before it processes deferred
  deletions (timers that have expired together are activated in one pass). These are
  the states the watcher can be in when the handlers and the returns to the event loop
  come in any order.
\<close>

inductive reachableAnyOrder :: "watcher \<Rightarrow> bool" where
  anyOrder_init: "reachableAnyOrder FileSystemWatcher"
| anyOrder_handle:
    "reachableAnyOrder w \<Longrightarrow> handle fs ev w = Some (w', fs', out) \<Longrightarrow> reachableAnyOrder w'"
| anyOrder_eventLoop: "reachableAnyOrder w \<Longrightarrow> reachableAnyOrder (returnToEventLoop w)"

text \<open>
  A run: each event with the file system it finds. The result is the watcher and all
  the batches emitted, in order; a crash of one handler is a crash of the run.
\<close>

fun run :: "(fsys \<times> event) list \<Rightarrow> watcher \<Rightarrow> (watcher \<times> string list list) option" where
  "run [] w = Some (w, [])"
| "run ((fs, ev) # evs) w =
     (case dispatch fs ev w of
        None \<Rightarrow> None
      | Some (w', fs', out) \<Rightarrow>
          (case run evs w' of None \<Rightarrow> None | Some (w'', outs) \<Rightarrow> Some (w'', out @ outs)))"

subsection \<open>Notions the properties are stated with\<close>

text \<open>What a scan puts into its batch: a magnet link, or a file the validator accepts.\<close>

definition readyNow :: "fsys \<Rightarrow> string \<Rightarrow> bool" where
  "readyNow fs p = (endsWith p ''.magnet'' \<or> isValid fs p)"

text \<open>
  The transition of one tracked path at a reconciliation tick, written from the four
  cases of the specification (section 4.4), to be compared with what
  \<^verbatim>\<open>processPartialTorrents\<close> does.
\<close>

datatype transition = Dropped | Reported | Invalidated | Retried

definition specTransition :: "fsys \<Rightarrow> string \<Rightarrow> int \<Rightarrow> transition" where
  "specTransition fs p n =
     (if \<not> fileExists fs p then Dropped
      else if isValid fs p then Reported
      else if n \<ge> MAX_PARTIAL_RETRIES then Invalidated
      else Retried)"

definition invalidate :: "fsys \<Rightarrow> string \<Rightarrow> fsys" where
  "invalidate fs p = rename p (p @ ''.invalid'') fs"

text \<open>
  What holds of the watcher between two events: the filters are the constructor's, the
  tracked paths are distinct, carry a count from 0 to the ceiling and are names a scan
  can list, and each timer handle is null exactly when its set is empty, and otherwise
  points to a running timer.
\<close>

definition trackedOk :: "(string \<times> int) list \<Rightarrow> bool" where
  "trackedOk d =
     (distinct (map fst d) \<and>
      (\<forall>(p, n) \<in> set d. 0 \<le> n \<and> n \<le> MAX_PARTIAL_RETRIES \<and>
          \<not> endsWith p ''.invalid'' \<and> \<not> endsWith p ''.magnet''))"

definition wellFormed :: "watcher \<Rightarrow> bool" where
  "wellFormed w =
     (m_filters w = [''*.torrent'', ''*.magnet''] \<and> trackedOk (m_partialTorrents w) \<and>
      (case m_partialTorrentTimer w of
         None \<Rightarrow> m_partialTorrents w = []
       | Some t \<Rightarrow> m_partialTorrents w \<noteq> [] \<and> active t \<and> \<not> deleteLaterCalled t \<and>
           singleShot t \<and> interval t = WATCH_INTERVAL) \<and>
      (case m_watchTimer w of
         None \<Rightarrow> m_watchedFolders w = []
       | Some t \<Rightarrow> m_watchedFolders w \<noteq> [] \<and> active t \<and> \<not> singleShot t \<and>
           interval t = WATCH_INTERVAL))"

text \<open>
  What holds of the watcher in whatever order the handlers run: all of the above but
  what concerns the reconciliation timer.
\<close>

definition sound :: "watcher \<Rightarrow> bool" where
  "sound w =
     (m_filters w = [''*.torrent'', ''*.magnet''] \<and> trackedOk (m_partialTorrents w) \<and>
      (case m_watchTimer w of
         None \<Rightarrow> m_watchedFolders w = []
       | Some t \<Rightarrow> m_watchedFolders w \<noteq> [] \<and> active t \<and> \<not> singleShot t \<and>
           interval t = WATCH_INTERVAL))"

text \<open>The number of reconciliation ticks in a run, and a run of ticks alone.\<close>

definition ticks :: "(fsys \<times> event) list \<Rightarrow> nat" where
  "ticks evs = length (filter (\<lambda>(fs, ev). ev = PartialTimeout) evs)"

definition tickRun :: "fsys list \<Rightarrow> (fsys \<times> event) list" where
  "tickRun fss = map (\<lambda>fs. (fs, PartialTimeout)) fss"

subsection \<open>A file system and a watcher to evaluate the operations on\<close>

text \<open>
  A local directory \<^verbatim>\<open>/watch\<close> (ext4) holding a torrent file that does not validate,
  and an NFS mount \<^verbatim>\<open>/mnt/share\<close> holding a magnet link; no links, and no rename
  refused.
\<close>

definition exampleFs :: fsys where
  "exampleFs =
     \<lparr>dirExists = (\<lambda>d. d = ''/watch'' \<or> d = ''/mnt/share''),
      canonicalPath = (\<lambda>d. d), absolutePath = (\<lambda>d. d),
      statfs = (\<lambda>p. if p = ''/mnt/share/.'' then Inr 0x6969
                     else if p = ''/watch/.'' then Inr 0xEF53 else Inl ENOENT),
      files = [(''/watch/b.torrent'', False), (''/mnt/share/a.magnet'', False)],
      renameFails = (\<lambda>old new. False)\<rparr>"

text \<open>The same, with a link \<^verbatim>\<open>/mnt/link\<close> to the mount.\<close>

definition linkedFs :: fsys where
  "linkedFs =
     exampleFs\<lparr>dirExists := (\<lambda>d. d = ''/watch'' \<or> d = ''/mnt/share'' \<or> d = ''/mnt/link''),
       canonicalPath := (\<lambda>d. if d = ''/mnt/link'' then ''/mnt/share'' else d)\<rparr>"

definition networkWatcher :: watcher where
  "networkWatcher = fst (addPath exampleFs ''/mnt/share'' FileSystemWatcher)"

definition exampleFsValid :: fsys where
  "exampleFsValid = exampleFs\<lparr>files := [(''/watch/b.torrent'', True), (''/mnt/share/a.magnet'', False)]\<rparr>"

definition localWatcher :: watcher where
  "localWatcher =
     \<lparr>m_filters = [''*.torrent'', ''*.magnet''], m_partialTorrents = [(''/watch/b.torrent'', 0)],
      m_partialTorrentTimer =
        Some \<lparr>interval = 10000, singleShot = True, active = True, deleteLaterCalled = False\<rparr>,
      m_watchedFolders = [], m_watchTimer = None, watched = [''/watch'']\<rparr>"

definition drainedWatcher :: watcher where
  "drainedWatcher =
     \<lparr>m_filters = [''*.torrent'', ''*.magnet''], m_partialTorrents = [],
      m_partialTorrentTimer = None,
      m_watchedFolders = [], m_watchTimer = None, watched = [''/watch'']\<rparr>"

definition exhaustedWatcher :: watcher where
  "exhaustedWatcher = localWatcher\<lparr>m_partialTorrents := [(''/watch/b.torrent'', 5)]\<rparr>"

definition invalidatedFs :: fsys where
  "invalidatedFs =
     exampleFs\<lparr>files := [(''/watch/b.torrent.invalid'', False), (''/mnt/share/a.magnet'', False)]\<rparr>"

definition fourFs :: fsys where
  "fourFs =
     exampleFs\<lparr>files := [(''/watch/b.torrent'', False), (''/watch/slow.torrent'', False),
                         (''/watch/ok.torrent'', False), (''/watch/gone.torrent'', False)]\<rparr>"

definition tickFs :: fsys where
  "tickFs =
     exampleFs\<lparr>files := [(''/watch/b.torrent'', False), (''/watch/slow.torrent'', False),
                         (''/watch/ok.torrent'', True)]\<rparr>"

definition fourWatcher :: watcher where
  "fourWatcher =
     localWatcher\<lparr>m_partialTorrents :=
       [(''/watch/b.torrent'', 5), (''/watch/slow.torrent'', 0), (''/watch/ok.torrent'', 0),
        (''/watch/gone.torrent'', 0)]\<rparr>"

definition fourTicksWatcher :: watcher where
  "fourTicksWatcher = localWatcher\<lparr>m_partialTorrents := [(''/watch/b.torrent'', 4)]\<rparr>"

definition upperCaseFs :: fsys where
  "upperCaseFs = exampleFs\<lparr>files := [(''/watch/X.MAGNET'', False), (''/watch/y.magnet'', False)]\<rparr>"

definition upperCaseWatcher :: watcher where
  "upperCaseWatcher = fst (scanLocalFolder upperCaseFs ''/watch'' FileSystemWatcher)"

definition raceFs :: fsys where
  "raceFs = exampleFs\<lparr>files := [(''/watch/b.torrent'', True), (''/mnt/share/c.torrent'', False)]\<rparr>"

definition bothWatcher :: watcher where
  "bothWatcher =
     \<lparr>m_filters = [''*.torrent'', ''*.magnet''], m_partialTorrents = [(''/watch/b.torrent'', 0)],
      m_partialTorrentTimer =
        Some \<lparr>interval = 10000, singleShot = True, active = True, deleteLaterCalled = False\<rparr>,
      m_watchedFolders = [''/mnt/share''],
      m_watchTimer =
        Some \<lparr>interval = 10000, singleShot = False, active = True, deleteLaterCalled = False\<rparr>,
      watched = [''/watch'']\<rparr>"

definition stoppedWatcher :: watcher where
  "stoppedWatcher =
     bothWatcher\<lparr>m_partialTorrents := [],
       m_partialTorrentTimer :=
         Some \<lparr>interval = 10000, singleShot = True, active = False, deleteLaterCalled = True\<rparr>\<rparr>"



definition scannedAgainWatcher :: watcher where
  "scannedAgainWatcher =
     localWatcher\<lparr>m_partialTorrents := [(''/watch/b.torrent'', 0), (''/watch/slow.torrent'', 0)]\<rparr>"

section \<open>Properties\<close>

subsection \<open>Strings and filters\<close>

lemma endsWith_iff: "endsWith s suf \<longleftrightarrow> (\<exists>pre. s = pre @ suf)"
proof
  assume "endsWith s suf"
  then have "s = take (length s - length suf) s @ suf"
    by (metis append_take_drop_id endsWith_def)
  then show "\<exists>pre. s = pre @ suf" ..
next
  assume "\<exists>pre. s = pre @ suf"
  then show "endsWith s suf" by (auto simp: endsWith_def)
qed

lemma toLower_t: "toLower c = CHR ''t'' \<Longrightarrow> c \<noteq> CHR ''d''"
  by (auto simp: toLower_def)

lemma wildcardMatch_last:
  "wildcardMatch pat s \<Longrightarrow> pat \<noteq> [] \<Longrightarrow> last pat \<noteq> CHR ''*'' \<Longrightarrow> last pat \<noteq> CHR ''?'' \<Longrightarrow>
     s \<noteq> [] \<and> toLower (last s) = toLower (last pat)"
  by (induction pat s rule: wildcardMatch.induct) (auto split: list.splits if_splits)

lemma matchesFilters_last:
  assumes "matchesFilters [''*.torrent'', ''*.magnet''] n"
  shows "n \<noteq> [] \<and> toLower (last n) = CHR ''t''"
proof -
  have "wildcardMatch ''*.torrent'' n \<or> wildcardMatch ''*.magnet'' n"
    using assms by (simp add: matchesFilters_def)
  then show ?thesis
  proof
    assume "wildcardMatch ''*.torrent'' n"
    from wildcardMatch_last [OF this] show ?thesis by (simp add: toLower_def)
  next
    assume "wildcardMatch ''*.magnet'' n"
    from wildcardMatch_last [OF this] show ?thesis by (simp add: toLower_def)
  qed
qed

lemma endsWith_invalid_last: "endsWith p ''.invalid'' \<Longrightarrow> p \<noteq> [] \<and> last p = CHR ''d''"
  by (auto simp: endsWith_iff)

lemma listed_not_invalid:
  assumes "matchesFilters [''*.torrent'', ''*.magnet''] n"
  shows "\<not> endsWith (absoluteFilePath dir n) ''.invalid''"
proof
  assume "endsWith (absoluteFilePath dir n) ''.invalid''"
  then have "last (absoluteFilePath dir n) = CHR ''d''"
    by (simp add: endsWith_invalid_last)
  moreover have "n \<noteq> []" and t: "toLower (last n) = CHR ''t''"
    using matchesFilters_last [OF assms] by simp_all
  ultimately have "last n = CHR ''d''"
    by (simp add: absoluteFilePath_def)
  with t show False using toLower_t by blast
qed

lemma invalid_name_unmatched: "\<not> matchesFilters [''*.torrent'', ''*.magnet''] (n @ ''.invalid'')"
proof
  assume "matchesFilters [''*.torrent'', ''*.magnet''] (n @ ''.invalid'')"
  from matchesFilters_last [OF this] show False by (simp add: toLower_def)
qed

lemma set_entryList: "n \<in> set (entryList fs filters dir) \<Longrightarrow> matchesFilters filters n"
  by (simp add: entryList_def)

lemma map_of_rename_other:
  "r \<noteq> old \<Longrightarrow> r \<noteq> new \<Longrightarrow>
     map_of (map (\<lambda>(p, v). if p = old then (new, v) else (p, v)) xs) r = map_of xs r"
  by (induction xs) auto

lemma rename_other:
  "r \<noteq> old \<Longrightarrow> r \<noteq> new \<Longrightarrow> map_of (files (rename old new fs)) r = map_of (files fs) r"
  by (simp add: rename_def map_of_rename_other)

lemma map_of_rename_old:
  "old \<noteq> new \<Longrightarrow> map_of (map (\<lambda>(p, v). if p = old then (new, v) else (p, v)) xs) old = None"
  by (induction xs) (auto split: if_splits)

lemma map_of_rename_new:
  "map_of xs new = None \<Longrightarrow>
     map_of (map (\<lambda>(p, v). if p = old then (new, v) else (p, v)) xs) new = map_of xs old"
  by (induction xs) (auto split: if_splits)

lemma rename_done:
  assumes "fileExists fs old" "\<not> fileExists fs new" "\<not> renameFails fs old new"
  shows "\<not> fileExists (rename old new fs) old \<and> fileExists (rename old new fs) new
         \<and> isValid (rename old new fs) new = isValid fs old"
proof -
  have "old \<noteq> new" using assms by auto
  then show ?thesis
    using assms by (simp add: rename_def fileExists_def isValid_def map_of_rename_old map_of_rename_new)
qed

lemma rename_frame:
  "dirExists (rename a b fs) = dirExists fs \<and> statfs (rename a b fs) = statfs fs \<and>
   canonicalPath (rename a b fs) = canonicalPath fs \<and> absolutePath (rename a b fs) = absolutePath fs \<and>
   renameFails (rename a b fs) = renameFails fs"
  by (simp add: rename_def)

lemma addTorrentFile_step:
  "addTorrentFile fs dir (w, ts) x =
     (if readyNow fs (absoluteFilePath dir x) then (w, ts @ [absoluteFilePath dir x])
      else if contains (m_partialTorrents w) (absoluteFilePath dir x) then (w, ts)
      else (w\<lparr>m_partialTorrents := m_partialTorrents w @ [(absoluteFilePath dir x, 0)]\<rparr>, ts))"
  by (simp add: addTorrentFile_def readyNow_def insert_entry_def Let_def)

lemma contains_append: "contains (d @ map (\<lambda>p. (p, 0)) new) p = (contains d p \<or> p \<in> set new)"
  by (auto simp: contains_def image_iff)

lemma foldl_addTorrentFile:
  "\<exists>new. foldl (addTorrentFile fs dir) (w, ts) names =
          (w\<lparr>m_partialTorrents := m_partialTorrents w @ map (\<lambda>p. (p, 0)) new\<rparr>,
           ts @ filter (readyNow fs) (map (absoluteFilePath dir) names))
        \<and> distinct new
        \<and> set new = {p \<in> set (map (absoluteFilePath dir) names).
                        \<not> readyNow fs p \<and> \<not> contains (m_partialTorrents w) p}"
proof (induction names rule: rev_induct)
  case Nil
  show ?case by (intro exI [of _ "[]"]) simp
next
  case (snoc x xs)
  then obtain new where
    eq: "foldl (addTorrentFile fs dir) (w, ts) xs =
          (w\<lparr>m_partialTorrents := m_partialTorrents w @ map (\<lambda>p. (p, 0)) new\<rparr>,
           ts @ filter (readyNow fs) (map (absoluteFilePath dir) xs))"
    and d: "distinct new"
    and s: "set new = {p \<in> set (map (absoluteFilePath dir) xs).
                        \<not> readyNow fs p \<and> \<not> contains (m_partialTorrents w) p}"
    by blast
  let ?p = "absoluteFilePath dir x"
  consider (ready) "readyNow fs ?p"
    | (known) "\<not> readyNow fs ?p" "contains (m_partialTorrents w) ?p \<or> ?p \<in> set new"
    | (fresh) "\<not> readyNow fs ?p" "\<not> contains (m_partialTorrents w) ?p" "?p \<notin> set new"
    by blast
  then show ?case
  proof cases
    case ready
    have "foldl (addTorrentFile fs dir) (w, ts) (xs @ [x]) =
          (w\<lparr>m_partialTorrents := m_partialTorrents w @ map (\<lambda>p. (p, 0)) new\<rparr>,
           ts @ filter (readyNow fs) (map (absoluteFilePath dir) (xs @ [x])))"
      using ready by (simp add: eq addTorrentFile_step)
    moreover have "set new = {p \<in> set (map (absoluteFilePath dir) (xs @ [x])).
                        \<not> readyNow fs p \<and> \<not> contains (m_partialTorrents w) p}"
      using ready s by auto
    ultimately show ?thesis using d by blast
  next
    case known
    have "foldl (addTorrentFile fs dir) (w, ts) (xs @ [x]) =
          (w\<lparr>m_partialTorrents := m_partialTorrents w @ map (\<lambda>p. (p, 0)) new\<rparr>,
           ts @ filter (readyNow fs) (map (absoluteFilePath dir) (xs @ [x])))"
      using known by (simp add: eq addTorrentFile_step contains_append)
    moreover have "set new = {p \<in> set (map (absoluteFilePath dir) (xs @ [x])).
                        \<not> readyNow fs p \<and> \<not> contains (m_partialTorrents w) p}"
      using known s by auto
    ultimately show ?thesis using d by blast
  next
    case fresh
    have "foldl (addTorrentFile fs dir) (w, ts) (xs @ [x]) =
          (w\<lparr>m_partialTorrents := m_partialTorrents w @ map (\<lambda>p. (p, 0)) (new @ [?p])\<rparr>,
           ts @ filter (readyNow fs) (map (absoluteFilePath dir) (xs @ [x])))"
      using fresh by (simp add: eq addTorrentFile_step contains_append)
    moreover have "set (new @ [?p]) = {p \<in> set (map (absoluteFilePath dir) (xs @ [x])).
                        \<not> readyNow fs p \<and> \<not> contains (m_partialTorrents w) p}"
      using fresh s by auto
    moreover have "distinct (new @ [?p])" using fresh d by simp
    ultimately show ?thesis by blast
  qed
qed

subsection \<open>Scans\<close>

lemma addTorrentsFromDir_eq:
  "\<exists>new. addTorrentsFromDir fs dir (w, ts) =
          (if m_partialTorrents w @ map (\<lambda>p. (p, 0)) new \<noteq> []
           then startPartialTorrentTimer (w\<lparr>m_partialTorrents := m_partialTorrents w @ map (\<lambda>p. (p, 0)) new\<rparr>)
           else w,
           ts @ filter (readyNow fs) (map (absoluteFilePath dir) (entryList fs (m_filters w) dir)))
        \<and> distinct new
        \<and> set new = {p \<in> set (map (absoluteFilePath dir) (entryList fs (m_filters w) dir)).
                        \<not> readyNow fs p \<and> \<not> contains (m_partialTorrents w) p}"
proof -
  obtain new where
    eq: "foldl (addTorrentFile fs dir) (w, ts) (entryList fs (m_filters w) dir) =
          (w\<lparr>m_partialTorrents := m_partialTorrents w @ map (\<lambda>p. (p, 0)) new\<rparr>,
           ts @ filter (readyNow fs) (map (absoluteFilePath dir) (entryList fs (m_filters w) dir)))"
    and d: "distinct new"
    and s: "set new = {p \<in> set (map (absoluteFilePath dir) (entryList fs (m_filters w) dir)).
                        \<not> readyNow fs p \<and> \<not> contains (m_partialTorrents w) p}"
    using foldl_addTorrentFile by blast
  have "addTorrentsFromDir fs dir (w, ts) =
          (if m_partialTorrents w @ map (\<lambda>p. (p, 0)) new \<noteq> []
           then startPartialTorrentTimer (w\<lparr>m_partialTorrents := m_partialTorrents w @ map (\<lambda>p. (p, 0)) new\<rparr>)
           else w,
           ts @ filter (readyNow fs) (map (absoluteFilePath dir) (entryList fs (m_filters w) dir)))"
    by (simp add: addTorrentsFromDir_def eq)
  with d s show ?thesis by blast
qed

lemma startPartialTorrentTimer_frame:
  "m_filters (startPartialTorrentTimer w) = m_filters w \<and>
   m_partialTorrents (startPartialTorrentTimer w) = m_partialTorrents w \<and>
   m_watchedFolders (startPartialTorrentTimer w) = m_watchedFolders w \<and>
   m_watchTimer (startPartialTorrentTimer w) = m_watchTimer w \<and>
   watched (startPartialTorrentTimer w) = watched w"
  by (simp add: startPartialTorrentTimer_def split: option.split)

lemma addTorrentsFromDir_frame:
  assumes "addTorrentsFromDir fs dir (w, ts) = (w', ts')"
  shows "m_filters w' = m_filters w \<and> m_watchedFolders w' = m_watchedFolders w \<and>
         m_watchTimer w' = m_watchTimer w \<and> watched w' = watched w"
proof -
  obtain new where
    "addTorrentsFromDir fs dir (w, ts) =
          (if m_partialTorrents w @ map (\<lambda>p. (p, 0)) new \<noteq> []
           then startPartialTorrentTimer (w\<lparr>m_partialTorrents := m_partialTorrents w @ map (\<lambda>p. (p, 0)) new\<rparr>)
           else w,
           ts @ filter (readyNow fs) (map (absoluteFilePath dir) (entryList fs (m_filters w) dir)))"
    using addTorrentsFromDir_eq by blast
  with assms show ?thesis
    by (auto simp: startPartialTorrentTimer_frame split: if_splits)
qed

lemma trackedOk_append:
  assumes "trackedOk d" "distinct new" "\<forall>p\<in>set new. \<not> contains d p"
    and "\<forall>p\<in>set new. \<not> endsWith p ''.invalid'' \<and> \<not> endsWith p ''.magnet''"
  shows "trackedOk (d @ map (\<lambda>p. (p, 0)) new)"
proof -
  have "distinct (map fst (d @ map (\<lambda>p. (p, 0)) new))"
    using assms(1-3) by (auto simp: trackedOk_def contains_def comp_def)
  moreover have "\<forall>(p, n) \<in> set (d @ map (\<lambda>p. (p, 0)) new).
      0 \<le> n \<and> n \<le> MAX_PARTIAL_RETRIES \<and> \<not> endsWith p ''.invalid'' \<and> \<not> endsWith p ''.magnet''"
    using assms(1,4) by (auto simp: trackedOk_def MAX_PARTIAL_RETRIES_def)
  ultimately show ?thesis by (simp add: trackedOk_def)
qed

lemma wellFormed_addTorrentsFromDir:
  assumes "wellFormed w" "addTorrentsFromDir fs dir (w, ts) = (w', ts')"
  shows "wellFormed w'"
proof -
  obtain new where
    eq: "addTorrentsFromDir fs dir (w, ts) =
          (if m_partialTorrents w @ map (\<lambda>p. (p, 0)) new \<noteq> []
           then startPartialTorrentTimer (w\<lparr>m_partialTorrents := m_partialTorrents w @ map (\<lambda>p. (p, 0)) new\<rparr>)
           else w,
           ts @ filter (readyNow fs) (map (absoluteFilePath dir) (entryList fs (m_filters w) dir)))"
    and d: "distinct new"
    and s: "set new = {p \<in> set (map (absoluteFilePath dir) (entryList fs (m_filters w) dir)).
                        \<not> readyNow fs p \<and> \<not> contains (m_partialTorrents w) p}"
    using addTorrentsFromDir_eq by blast
  have f: "m_filters w = [''*.torrent'', ''*.magnet'']"
    using assms(1) by (simp add: wellFormed_def)
  have "\<forall>p\<in>set new. \<not> endsWith p ''.invalid'' \<and> \<not> endsWith p ''.magnet''"
  proof
    fix p assume "p \<in> set new"
    with s obtain n where n: "n \<in> set (entryList fs (m_filters w) dir)" "p = absoluteFilePath dir n"
      and r: "\<not> readyNow fs p" by auto
    from n(1) have "matchesFilters [''*.torrent'', ''*.magnet''] n"
      using set_entryList f by metis
    then have "\<not> endsWith p ''.invalid''" using n(2) listed_not_invalid by simp
    with r show "\<not> endsWith p ''.invalid'' \<and> \<not> endsWith p ''.magnet''"
      by (simp add: readyNow_def)
  qed
  moreover have "\<forall>p\<in>set new. \<not> contains (m_partialTorrents w) p" using s by simp
  moreover have "trackedOk (m_partialTorrents w)" using assms(1) by (simp add: wellFormed_def)
  ultimately have t: "trackedOk (m_partialTorrents w @ map (\<lambda>p. (p, 0)) new)"
    using d trackedOk_append by blast
  show ?thesis
  proof (cases "m_partialTorrents w @ map (\<lambda>p. (p, 0)) new = []")
    case True
    then have "w' = w" using eq assms(2) by simp
    then show ?thesis using assms(1) by simp
  next
    case False
    then have w': "w' = startPartialTorrentTimer (w\<lparr>m_partialTorrents := m_partialTorrents w @ map (\<lambda>p. (p, 0)) new\<rparr>)"
      using eq assms(2) by simp
    show ?thesis
      using assms(1) t False unfolding w' wellFormed_def startPartialTorrentTimer_def
      by (auto split: option.splits)
  qed
qed

lemma wellFormed_addTorrentsFromDirs:
  "wellFormed w \<Longrightarrow> foldl (\<lambda>acc dir. addTorrentsFromDir fs dir acc) (w, ts) dirs = (w', ts') \<Longrightarrow>
     wellFormed w'"
proof (induction dirs arbitrary: w ts)
  case Nil
  then show ?case by simp
next
  case (Cons dir dirs)
  obtain w1 ts1 where s: "addTorrentsFromDir fs dir (w, ts) = (w1, ts1)"
    by (cases "addTorrentsFromDir fs dir (w, ts)")
  then have "wellFormed w1" using Cons.prems(1) wellFormed_addTorrentsFromDir by blast
  then show ?case using Cons.IH Cons.prems(2) s by simp
qed

lemma addTorrentsFromDirs_frame:
  "foldl (\<lambda>acc dir. addTorrentsFromDir fs dir acc) (w, ts) dirs = (w', ts') \<Longrightarrow>
     m_filters w' = m_filters w \<and> m_watchedFolders w' = m_watchedFolders w \<and>
     m_watchTimer w' = m_watchTimer w \<and> watched w' = watched w"
proof (induction dirs arbitrary: w ts)
  case Nil
  then show ?case by simp
next
  case (Cons dir dirs)
  obtain w1 ts1 where s: "addTorrentsFromDir fs dir (w, ts) = (w1, ts1)"
    by (cases "addTorrentsFromDir fs dir (w, ts)")
  from addTorrentsFromDir_frame [OF s] Cons.IH [of w1 ts1] Cons.prems s show ?case by simp
qed

lemma wellFormed_scanLocalFolder:
  "wellFormed w \<Longrightarrow> scanLocalFolder fs path w = (w', out) \<Longrightarrow> wellFormed w'"
  by (auto simp: scanLocalFolder_def split: prod.splits dest: wellFormed_addTorrentsFromDir)

lemma wellFormed_scanNetworkFolders:
  "wellFormed w \<Longrightarrow> scanNetworkFolders fs w = (w', out) \<Longrightarrow> wellFormed w'"
  by (auto simp: scanNetworkFolders_def split: prod.splits dest: wellFormed_addTorrentsFromDirs)

lemma wellFormed_init: "wellFormed FileSystemWatcher"
  by (simp add: wellFormed_def FileSystemWatcher_def trackedOk_def)

lemma wellFormed_addPath:
  assumes "wellFormed w" "addPath fs path w = (w', out)"
  shows "wellFormed w'"
proof (cases "dirExists fs (QDir path) \<and> \<not> fst (isNetworkFileSystem fs path)")
  case True
  have "wellFormed (w\<lparr>watched := (if path \<in> set (watched w) then watched w else watched w @ [path])\<rparr>)"
    using assms(1) by (auto simp: wellFormed_def split: option.splits)
  then show ?thesis
    using True assms(2) wellFormed_scanLocalFolder by (simp add: addPath_def Let_def)
next
  case False
  then show ?thesis
    using assms by (auto simp: addPath_def Let_def wellFormed_def split: if_splits option.splits)
qed

lemma removeFirst_Some: "removeFirst P xs = Some ys \<Longrightarrow> xs \<noteq> []"
  by (cases xs) auto

lemma wellFormed_removePath: "wellFormed w \<Longrightarrow> wellFormed (removePath fs path w)"
  by (auto simp: removePath_def wellFormed_def split: option.splits dest: removeFirst_Some)

subsection \<open>The reconciliation tick\<close>

lemma stillPartial_spec:
  "stillPartial p n (np, fs) =
     (case specTransition fs p n of
        Dropped \<Rightarrow> ((True, n), (np, fs))
      | Reported \<Rightarrow> ((True, n), (np @ [p], fs))
      | Invalidated \<Rightarrow> ((True, n), (np, invalidate fs p))
      | Retried \<Rightarrow> ((False, n + 1), (np, fs)))"
  by (simp add: stillPartial_def specTransition_def invalidate_def)

lemma invalidate_other:
  "r \<noteq> k \<Longrightarrow> r \<noteq> k @ ''.invalid'' \<Longrightarrow> map_of (files (invalidate fs k)) r = map_of (files fs) r"
  by (simp add: invalidate_def rename_other)

lemma specTransition_invalidate:
  "p \<noteq> k \<Longrightarrow> p \<noteq> k @ ''.invalid'' \<Longrightarrow> specTransition (invalidate fs k) p n = specTransition fs p n"
  by (simp add: specTransition_def fileExists_def isValid_def invalidate_other)

lemma endsWith_invalid: "endsWith (k @ ''.invalid'') ''.invalid''"
  by (simp add: endsWith_def)

lemma removeIf_stillPartial:
  assumes "distinct (map fst d)" "\<forall>p\<in>set (map fst d). \<not> endsWith p ''.invalid''"
  shows "removeIf stillPartial d (np, fs) =
     (map (\<lambda>(p, n). (p, n + 1)) (filter (\<lambda>(p, n). specTransition fs p n = Retried) d),
      np @ map fst (filter (\<lambda>(p, n). specTransition fs p n = Reported) d),
      foldl invalidate fs (map fst (filter (\<lambda>(p, n). specTransition fs p n = Invalidated) d)))"
  using assms
proof (induction d arbitrary: np fs)
  case Nil
  show ?case by simp
next
  case (Cons e d)
  obtain k v where e: "e = (k, v)" by (cases e)
  have dist: "distinct (map fst d)" and inv: "\<forall>p\<in>set (map fst d). \<not> endsWith p ''.invalid''"
    using Cons.prems by simp_all
  note IH = Cons.IH [OF dist inv]
  show ?case
  proof (cases "specTransition fs k v")
    case Invalidated
    have same: "specTransition (invalidate fs k) p n = specTransition fs p n" if "(p, n) \<in> set d" for p n
    proof -
      have "p \<in> set (map fst d)" using that by force
      then have "p \<noteq> k" and "\<not> endsWith p ''.invalid''"
        using Cons.prems e inv by auto
      then have "p \<noteq> k @ ''.invalid''" using endsWith_invalid by metis
      with \<open>p \<noteq> k\<close> show ?thesis by (rule specTransition_invalidate)
    qed
    have f: "filter (\<lambda>(p, n). specTransition (invalidate fs k) p n = t) d =
             filter (\<lambda>(p, n). specTransition fs p n = t) d" for t
      by (rule filter_cong) (auto simp: same)
    show ?thesis
      using Invalidated by (simp add: e stillPartial_spec IH f)
  qed (simp_all add: e stillPartial_spec IH)
qed

lemma trackedOk_tick:
  assumes "trackedOk d"
  shows "trackedOk (map (\<lambda>(p, n). (p, n + 1)) (filter (\<lambda>(p, n). specTransition fs p n = Retried) d))"
proof -
  have key: "fst \<circ> (\<lambda>(p, n). (p, n + (1::int))) = fst"
    by auto
  have "distinct (map fst (filter (\<lambda>(p, n). specTransition fs p n = Retried) d))"
    using assms by (simp add: trackedOk_def distinct_map_filter)
  moreover have "\<forall>(p, n) \<in> set (map (\<lambda>(p, n). (p, n + 1)) (filter (\<lambda>(p, n). specTransition fs p n = Retried) d)).
      0 \<le> n \<and> n \<le> MAX_PARTIAL_RETRIES \<and> \<not> endsWith p ''.invalid'' \<and> \<not> endsWith p ''.magnet''"
    using assms by (auto simp: trackedOk_def specTransition_def split: if_splits)
  ultimately show ?thesis by (simp add: trackedOk_def key)
qed

lemma trackedOk_keys:
  "trackedOk d \<Longrightarrow> distinct (map fst d) \<and> (\<forall>p\<in>set (map fst d). \<not> endsWith p ''.invalid'')"
  by (auto simp: trackedOk_def)

text \<open>What a tick does to a well-formed watcher, in one equation.\<close>

lemma processPartialTorrents_eq:
  assumes "trackedOk (m_partialTorrents w)" "m_partialTorrentTimer w = Some t"
  shows "processPartialTorrents fs w =
     Some (w\<lparr>m_partialTorrents :=
               map (\<lambda>(p, n). (p, n + 1))
                 (filter (\<lambda>(p, n). specTransition fs p n = Retried) (m_partialTorrents w)),
             m_partialTorrentTimer :=
               Some (if filter (\<lambda>(p, n). specTransition fs p n = Retried) (m_partialTorrents w) = []
                     then t\<lparr>active := False, deleteLaterCalled := True\<rparr>
                     else t\<lparr>interval := WATCH_INTERVAL, active := True\<rparr>)\<rparr>,
           foldl invalidate fs
             (map fst (filter (\<lambda>(p, n). specTransition fs p n = Invalidated) (m_partialTorrents w))),
           report (map fst (filter (\<lambda>(p, n). specTransition fs p n = Reported) (m_partialTorrents w))))"
proof -
  from trackedOk_keys [OF assms(1)]
  have "removeIf stillPartial (m_partialTorrents w) ([], fs) =
     (map (\<lambda>(p, n). (p, n + 1)) (filter (\<lambda>(p, n). specTransition fs p n = Retried) (m_partialTorrents w)),
      [] @ map fst (filter (\<lambda>(p, n). specTransition fs p n = Reported) (m_partialTorrents w)),
      foldl invalidate fs (map fst (filter (\<lambda>(p, n). specTransition fs p n = Invalidated) (m_partialTorrents w))))"
    using removeIf_stillPartial by blast
  then show ?thesis
    by (simp add: processPartialTorrents_def assms(2))
qed

lemma dispatch_tick_eq:
  assumes "wellFormed w"
  shows "dispatch fs PartialTimeout w =
     (if m_partialTorrents w = [] then None
      else Some (w\<lparr>m_partialTorrents :=
               map (\<lambda>(p, n). (p, n + 1))
                 (filter (\<lambda>(p, n). specTransition fs p n = Retried) (m_partialTorrents w)),
             m_partialTorrentTimer :=
               (if filter (\<lambda>(p, n). specTransition fs p n = Retried) (m_partialTorrents w) = []
                then None
                else Some ((the (m_partialTorrentTimer w))\<lparr>interval := WATCH_INTERVAL, active := True\<rparr>))\<rparr>,
           foldl invalidate fs
             (map fst (filter (\<lambda>(p, n). specTransition fs p n = Invalidated) (m_partialTorrents w))),
           report (map fst (filter (\<lambda>(p, n). specTransition fs p n = Reported) (m_partialTorrents w)))))"
proof (cases "m_partialTorrentTimer w")
  case None
  then have "m_partialTorrents w = []" using assms by (simp add: wellFormed_def)
  then show ?thesis using None by (simp add: dispatch_def handle_def processPartialTorrents_def)
next
  case (Some t)
  then have ne: "m_partialTorrents w \<noteq> []" and nd: "\<not> deleteLaterCalled t"
    using assms by (simp_all add: wellFormed_def)
  have tr: "trackedOk (m_partialTorrents w)" using assms by (simp add: wellFormed_def)
  show ?thesis
    using ne nd Some
    by (simp add: dispatch_def handle_def processPartialTorrents_eq [OF tr Some] returnToEventLoop_def)
qed

lemma wellFormed_tick:
  assumes "wellFormed w" "dispatch fs PartialTimeout w = Some (w', fs', out)"
  shows "wellFormed w'"
proof -
  let ?keep = "filter (\<lambda>(p, n). specTransition fs p n = Retried) (m_partialTorrents w)"
  have ne: "m_partialTorrents w \<noteq> []"
    using assms(2) unfolding dispatch_tick_eq [OF assms(1)] by (simp split: if_splits)
  have w': "w' = w\<lparr>m_partialTorrents := map (\<lambda>(p, n). (p, n + 1)) ?keep,
                     m_partialTorrentTimer :=
                       (if ?keep = [] then None
                        else Some ((the (m_partialTorrentTimer w))\<lparr>interval := WATCH_INTERVAL, active := True\<rparr>))\<rparr>"
    using assms(2) ne unfolding dispatch_tick_eq [OF assms(1)] by simp
  have tr: "trackedOk (map (\<lambda>(p, n). (p, n + 1)) ?keep)"
    using assms(1) trackedOk_tick by (simp add: wellFormed_def)
  from assms(1) ne obtain t where t: "m_partialTorrentTimer w = Some t" "\<not> deleteLaterCalled t"
      "singleShot t"
    by (cases "m_partialTorrentTimer w") (simp_all add: wellFormed_def)
  have f: "m_filters w' = [''*.torrent'', ''*.magnet'']"
    using assms(1) by (simp add: w' wellFormed_def)
  have p: "m_partialTorrents w' = map (\<lambda>(p, n). (p, n + 1)) ?keep"
    by (simp add: w')
  have wt: "m_watchTimer w' = m_watchTimer w" "m_watchedFolders w' = m_watchedFolders w"
    by (simp_all add: w')
  have pt: "case m_partialTorrentTimer w' of
         None \<Rightarrow> m_partialTorrents w' = []
       | Some t \<Rightarrow> m_partialTorrents w' \<noteq> [] \<and> active t \<and> \<not> deleteLaterCalled t \<and>
           singleShot t \<and> interval t = WATCH_INTERVAL"
  proof (cases "?keep = []")
    case True
    then show ?thesis by (simp add: w')
  next
    case False
    then show ?thesis using t by (simp add: w')
  qed
  have "case m_watchTimer w' of
         None \<Rightarrow> m_watchedFolders w' = []
       | Some t \<Rightarrow> m_watchedFolders w' \<noteq> [] \<and> active t \<and> \<not> singleShot t \<and>
           interval t = WATCH_INTERVAL"
    using assms(1) unfolding wt by (simp add: wellFormed_def)
  with f tr pt show ?thesis unfolding wellFormed_def p by simp
qed

lemma wellFormed_dispatch:
  assumes "wellFormed w" "dispatch fs ev w = Some (w', fs', out)"
  shows "wellFormed w'"
proof (cases ev)
  case PartialTimeout
  then show ?thesis using assms wellFormed_tick by blast
next
  case (AddPath path)
  obtain w1 o1 where a: "addPath fs path w = (w1, o1)" by (cases "addPath fs path w")
  then have wf: "wellFormed w1" using assms(1) wellFormed_addPath by blast
  then have "returnToEventLoop w1 = w1"
    by (auto simp: returnToEventLoop_def wellFormed_def split: option.splits)
  then show ?thesis using assms(2) AddPath a wf by (auto simp: dispatch_def handle_def)
next
  case (RemovePath path)
  have wf: "wellFormed (removePath fs path w)" using assms(1) by (rule wellFormed_removePath)
  then have "returnToEventLoop (removePath fs path w) = removePath fs path w"
    by (auto simp: returnToEventLoop_def wellFormed_def split: option.splits)
  then show ?thesis using assms(2) RemovePath wf by (auto simp: dispatch_def handle_def)
next
  case (DirectoryChanged path)
  obtain w1 o1 where a: "scanLocalFolder fs path w = (w1, o1)" by (cases "scanLocalFolder fs path w")
  then have wf: "wellFormed w1" using assms(1) wellFormed_scanLocalFolder by blast
  then have "returnToEventLoop w1 = w1"
    by (auto simp: returnToEventLoop_def wellFormed_def split: option.splits)
  then show ?thesis using assms(2) DirectoryChanged a wf by (auto simp: dispatch_def handle_def)
next
  case WatchTimeout
  obtain w1 o1 where a: "scanNetworkFolders fs w = (w1, o1)" by (cases "scanNetworkFolders fs w")
  then have wf: "wellFormed w1" using assms(1) wellFormed_scanNetworkFolders by blast
  then have "returnToEventLoop w1 = w1"
    by (auto simp: returnToEventLoop_def wellFormed_def split: option.splits)
  then show ?thesis using assms(2) WatchTimeout a wf by (auto simp: dispatch_def handle_def)
qed

lemma reachable_wellFormed: "reachable w \<Longrightarrow> wellFormed w"
  by (induction rule: reachable.induct) (auto intro: wellFormed_init wellFormed_dispatch)

subsection \<open>Reachable states and the example watchers\<close>

lemma reachable_dispatch:
  assumes "reachable w" "map_option fst (dispatch fs ev w) = Some w'"
  shows "reachable w'"
proof -
  from assms(2) obtain r where r: "dispatch fs ev w = Some r" "fst r = w'" by auto
  then have "dispatch fs ev w = Some (w', fst (snd r), snd (snd r))" by (cases r) auto
  with assms(1) show ?thesis by (rule reachable_step)
qed

lemma reachable_run:
  "reachable w \<Longrightarrow> map_option fst (run evs w) = Some w' \<Longrightarrow> reachable w'"
proof (induction evs arbitrary: w)
  case Nil
  then show ?case by simp
next
  case (Cons e evs)
  obtain fs ev where e: "e = (fs, ev)" by (cases e)
  from Cons.prems(2) obtain w1 fs1 o1 where d: "dispatch fs ev w = Some (w1, fs1, o1)"
    by (auto simp: e split: option.splits)
  then have "reachable w1" using Cons.prems(1) reachable_step by blast
  moreover have "map_option fst (run evs w1) = Some w'"
    using Cons.prems(2) d by (auto simp: e split: option.splits)
  ultimately show ?case by (rule Cons.IH)
qed

lemma addPath_exampleFs_network:
  "addPath exampleFs ''/mnt/share'' w =
     (w\<lparr>m_watchedFolders := m_watchedFolders w @ [''/mnt/share''],
        m_watchTimer := (case m_watchTimer w of
            None \<Rightarrow> Some \<lparr>interval = WATCH_INTERVAL, singleShot = False, active = True,
                         deleteLaterCalled = False\<rparr>
          | Some t \<Rightarrow> Some t)\<rparr>, [])"
  by (simp add: addPath_def Let_def QDir_def exampleFs_def isNetworkFileSystem_def statfsFile_def
      endsWith_def NFS_SUPER_MAGIC_def split: option.split)

lemma networkWatcher_eq:
  "networkWatcher = FileSystemWatcher\<lparr>m_watchedFolders := [''/mnt/share''],
     m_watchTimer := Some \<lparr>interval = WATCH_INTERVAL, singleShot = False, active = True,
                         deleteLaterCalled = False\<rparr>\<rparr>"
  by (simp add: networkWatcher_def addPath_exampleFs_network FileSystemWatcher_def)

text \<open>
  A directory added with a trailing separator is removed without it, and a directory is
  removed through a link to it.
\<close>

lemma removePath_same_directory:
  "m_watchedFolders (fst (addPath exampleFs ''/mnt/share/'' FileSystemWatcher)) = [''/mnt/share''] \<and>
   m_watchedFolders (removePath exampleFs ''/mnt/share''
       (fst (addPath exampleFs ''/mnt/share/'' FileSystemWatcher))) = [] \<and>
   m_watchTimer (removePath exampleFs ''/mnt/share''
       (fst (addPath exampleFs ''/mnt/share/'' FileSystemWatcher))) = None \<and>
   m_watchedFolders (removePath linkedFs ''/mnt/link'' networkWatcher) = [] \<and>
   m_watchedFolders (removePath exampleFs ''/mnt/link'' networkWatcher) = [''/mnt/share'']"
  by code_simp

lemma reachable_networkWatcher: "reachable networkWatcher"
proof -
  have "map_option fst (dispatch exampleFs (AddPath ''/mnt/share'') FileSystemWatcher) = Some networkWatcher"
    by (simp add: dispatch_def handle_def networkWatcher_def addPath_exampleFs_network
        returnToEventLoop_def FileSystemWatcher_def)
  with reachable_init show ?thesis by (rule reachable_dispatch)
qed

lemma dispatch_addPath_watch:
  "map_option fst (dispatch exampleFs (AddPath ''/watch'') FileSystemWatcher) = Some localWatcher"
  by code_simp

lemma dispatch_addPath_watch_out:
  "map_option (snd \<circ> snd) (dispatch exampleFs (AddPath ''/watch'') FileSystemWatcher) = Some []"
  by code_simp

lemma dispatch_tick_valid:
  "map_option fst (dispatch exampleFsValid PartialTimeout localWatcher) = Some drainedWatcher"
  by code_simp

lemma dispatch_tick_valid_out:
  "map_option (snd \<circ> snd) (dispatch exampleFsValid PartialTimeout localWatcher) = Some [[''/watch/b.torrent'']]"
  by code_simp

lemma dispatch_rescan:
  "map_option fst (dispatch exampleFs (DirectoryChanged ''/watch'') drainedWatcher) = Some localWatcher"
  by code_simp

lemma reachable_localWatcher: "reachable localWatcher"
  using reachable_init dispatch_addPath_watch by (rule reachable_dispatch)

lemma reachable_drainedWatcher: "reachable drainedWatcher"
  using reachable_localWatcher dispatch_tick_valid by (rule reachable_dispatch)

lemma returnToEventLoop_wellFormed: "wellFormed w \<Longrightarrow> returnToEventLoop w = w"
  by (auto simp: returnToEventLoop_def wellFormed_def split: option.splits)

subsection \<open>What a scan reports and registers\<close>

lemma addTorrentsFromDir_result:
  assumes "addTorrentsFromDir fs dir (w, ts) = (w', ts')"
  shows "\<exists>new. m_partialTorrents w' = m_partialTorrents w @ map (\<lambda>p. (p, 0)) new \<and>
          ts' = ts @ filter (readyNow fs) (map (absoluteFilePath dir) (entryList fs (m_filters w) dir)) \<and>
          distinct new \<and>
          set new = {p \<in> set (map (absoluteFilePath dir) (entryList fs (m_filters w) dir)).
                        \<not> readyNow fs p \<and> \<not> contains (m_partialTorrents w) p}"
proof -
  obtain new where
    eq: "addTorrentsFromDir fs dir (w, ts) =
          (if m_partialTorrents w @ map (\<lambda>p. (p, 0)) new \<noteq> []
           then startPartialTorrentTimer (w\<lparr>m_partialTorrents := m_partialTorrents w @ map (\<lambda>p. (p, 0)) new\<rparr>)
           else w,
           ts @ filter (readyNow fs) (map (absoluteFilePath dir) (entryList fs (m_filters w) dir)))"
    and d: "distinct new"
    and s: "set new = {p \<in> set (map (absoluteFilePath dir) (entryList fs (m_filters w) dir)).
                        \<not> readyNow fs p \<and> \<not> contains (m_partialTorrents w) p}"
    using addTorrentsFromDir_eq by blast
  have "m_partialTorrents w' = m_partialTorrents w @ map (\<lambda>p. (p, 0)) new"
    using eq assms by (auto simp: startPartialTorrentTimer_frame split: if_splits)
  moreover have "ts' = ts @ filter (readyNow fs) (map (absoluteFilePath dir) (entryList fs (m_filters w) dir))"
    using eq assms by simp
  ultimately show ?thesis using d s by blast
qed

lemma map_of_registered:
  "map_of (d @ map (\<lambda>p. (p, 0)) new) p =
     (if contains d p then map_of d p else if p \<in> set new then Some 0 else None)"
proof -
  have "map_of (map (\<lambda>p. (p, 0::int)) new) p = (if p \<in> set new then Some 0 else None)"
    by (induction new) auto
  moreover have "contains d p \<longleftrightarrow> map_of d p \<noteq> None"
    by (simp add: contains_def map_of_eq_None_iff)
  ultimately show ?thesis
    by (auto simp: map_add_def split: option.splits)
qed

text \<open>
  A scan of a directory appends to the batch exactly the listed entries that end in
  \<^verbatim>\<open>.magnet\<close> or that the validator accepts. For every listed entry: a path ending in
  \<^verbatim>\<open>.magnet\<close> is in the batch whatever its content, and is not registered; any other
  entry is in the batch exactly when the validator accepts it; one that is rejected
  and not yet tracked is registered with retry count 0, one that is tracked keeps its
  count; and nothing that was submitted to the validator and rejected is in the batch.
\<close>

lemma addTorrentsFromDir_entries:
  assumes "addTorrentsFromDir fs dir (w, ts) = (w', ts')"
    and "f \<in> set (entryList fs (m_filters w) dir)"
  shows "\<exists>batch. ts' = ts @ batch \<and>
           (endsWith (absoluteFilePath dir f) ''.magnet'' \<longrightarrow>
              absoluteFilePath dir f \<in> set batch \<and>
              map_of (m_partialTorrents w') (absoluteFilePath dir f)
                = map_of (m_partialTorrents w) (absoluteFilePath dir f)) \<and>
           (\<not> endsWith (absoluteFilePath dir f) ''.magnet'' \<longrightarrow>
              (absoluteFilePath dir f \<in> set batch \<longleftrightarrow> isValid fs (absoluteFilePath dir f))) \<and>
           (\<not> endsWith (absoluteFilePath dir f) ''.magnet'' \<and> \<not> isValid fs (absoluteFilePath dir f) \<and>
            \<not> contains (m_partialTorrents w) (absoluteFilePath dir f) \<longrightarrow>
              map_of (m_partialTorrents w') (absoluteFilePath dir f) = Some 0) \<and>
           (contains (m_partialTorrents w) (absoluteFilePath dir f) \<longrightarrow>
              map_of (m_partialTorrents w') (absoluteFilePath dir f)
                = map_of (m_partialTorrents w) (absoluteFilePath dir f)) \<and>
           (\<forall>q \<in> set batch. endsWith q ''.magnet'' \<or> isValid fs q)"
proof -
  let ?p = "absoluteFilePath dir f"
  let ?batch = "filter (readyNow fs) (map (absoluteFilePath dir) (entryList fs (m_filters w) dir))"
  from addTorrentsFromDir_result [OF assms(1)] obtain new where
    d: "m_partialTorrents w' = m_partialTorrents w @ map (\<lambda>p. (p, 0)) new"
    and t: "ts' = ts @ ?batch"
    and s: "set new = {p \<in> set (map (absoluteFilePath dir) (entryList fs (m_filters w) dir)).
                        \<not> readyNow fs p \<and> \<not> contains (m_partialTorrents w) p}"
    by blast
  have listed: "?p \<in> set (map (absoluteFilePath dir) (entryList fs (m_filters w) dir))"
    using assms(2) by simp
  have inb: "?p \<in> set ?batch \<longleftrightarrow> readyNow fs ?p"
    using listed by auto
  have innew: "?p \<in> set new \<longleftrightarrow> \<not> readyNow fs ?p \<and> \<not> contains (m_partialTorrents w) ?p"
    using listed s by blast
  have m: "map_of (m_partialTorrents w') ?p =
     (if contains (m_partialTorrents w) ?p then map_of (m_partialTorrents w) ?p
      else if ?p \<in> set new then Some 0 else None)"
    unfolding d by (rule map_of_registered)
  have none: "\<not> contains (m_partialTorrents w) ?p \<Longrightarrow> map_of (m_partialTorrents w) ?p = None"
    by (simp add: contains_def map_of_eq_None_iff)
  have 1: "endsWith ?p ''.magnet'' \<longrightarrow> ?p \<in> set ?batch \<and>
      map_of (m_partialTorrents w') ?p = map_of (m_partialTorrents w) ?p"
    using inb innew m none by (auto simp: readyNow_def)
  have 2: "\<not> endsWith ?p ''.magnet'' \<longrightarrow> (?p \<in> set ?batch \<longleftrightarrow> isValid fs ?p)"
    unfolding inb by (simp add: readyNow_def)
  have 3: "\<not> endsWith ?p ''.magnet'' \<and> \<not> isValid fs ?p \<and> \<not> contains (m_partialTorrents w) ?p \<longrightarrow>
      map_of (m_partialTorrents w') ?p = Some 0"
    using innew m by (simp add: readyNow_def)
  have 4: "contains (m_partialTorrents w) ?p \<longrightarrow>
      map_of (m_partialTorrents w') ?p = map_of (m_partialTorrents w) ?p"
    using m by simp
  have 5: "\<forall>q \<in> set ?batch. endsWith q ''.magnet'' \<or> isValid fs q"
    by (simp add: readyNow_def)
  from t 1 2 3 4 5 show ?thesis by blast
qed

subsection \<open>What the handlers report\<close>

lemma set_report: "b \<in> set (report ts) \<Longrightarrow> b = ts"
  by (simp add: report_def split: if_splits)

lemma addTorrentsFromDir_not_invalid:
  assumes "m_filters w = [''*.torrent'', ''*.magnet'']"
    and "addTorrentsFromDir fs dir (w, ts) = (w', ts')"
    and "\<forall>p\<in>set ts. \<not> endsWith p ''.invalid''"
  shows "\<forall>p\<in>set ts'. \<not> endsWith p ''.invalid''"
proof -
  from addTorrentsFromDir_result [OF assms(2)]
  have t: "ts' = ts @ filter (readyNow fs) (map (absoluteFilePath dir) (entryList fs (m_filters w) dir))"
    by blast
  have "\<not> endsWith (absoluteFilePath dir n) ''.invalid''" if "n \<in> set (entryList fs (m_filters w) dir)" for n
    using that set_entryList listed_not_invalid assms(1) by metis
  then show ?thesis using assms(3) unfolding t by auto
qed

lemma addTorrentsFromDirs_not_invalid:
  "m_filters w = [''*.torrent'', ''*.magnet''] \<Longrightarrow>
   foldl (\<lambda>acc dir. addTorrentsFromDir fs dir acc) (w, ts) dirs = (w', ts') \<Longrightarrow>
   \<forall>p\<in>set ts. \<not> endsWith p ''.invalid'' \<Longrightarrow> \<forall>p\<in>set ts'. \<not> endsWith p ''.invalid''"
proof (induction dirs arbitrary: w ts)
  case Nil
  then show ?case by simp
next
  case (Cons dir dirs)
  obtain w1 ts1 where s: "addTorrentsFromDir fs dir (w, ts) = (w1, ts1)"
    by (cases "addTorrentsFromDir fs dir (w, ts)")
  have "m_filters w1 = [''*.torrent'', ''*.magnet'']"
    using addTorrentsFromDir_frame [OF s] Cons.prems(1) by simp
  moreover have "\<forall>p\<in>set ts1. \<not> endsWith p ''.invalid''"
    using addTorrentsFromDir_not_invalid [OF Cons.prems(1) s Cons.prems(3)] .
  moreover have "foldl (\<lambda>acc dir. addTorrentsFromDir fs dir acc) (w1, ts1) dirs = (w', ts')"
    using Cons.prems(2) s by simp
  ultimately show ?case using Cons.IH by blast
qed

lemma scanLocalFolder_not_invalid:
  assumes "m_filters w = [''*.torrent'', ''*.magnet'']" "scanLocalFolder fs path w = (w', out)"
  shows "\<forall>b\<in>set out. \<forall>p\<in>set b. \<not> endsWith p ''.invalid''"
proof -
  obtain w1 ts1 where s: "addTorrentsFromDir fs (QDir path) (w, []) = (w1, ts1)"
    by (cases "addTorrentsFromDir fs (QDir path) (w, [])")
  then have "out = report ts1" using assms(2) by (simp add: scanLocalFolder_def)
  moreover have "\<forall>p\<in>set ts1. \<not> endsWith p ''.invalid''"
    using addTorrentsFromDir_not_invalid [OF assms(1) s] by simp
  ultimately show ?thesis using set_report by blast
qed

lemma scanNetworkFolders_not_invalid:
  assumes "m_filters w = [''*.torrent'', ''*.magnet'']" "scanNetworkFolders fs w = (w', out)"
  shows "\<forall>b\<in>set out. \<forall>p\<in>set b. \<not> endsWith p ''.invalid''"
proof -
  obtain w1 ts1 where
    s: "foldl (\<lambda>acc dir. addTorrentsFromDir fs dir acc) (w, []) (m_watchedFolders w) = (w1, ts1)"
    by (cases "foldl (\<lambda>acc dir. addTorrentsFromDir fs dir acc) (w, []) (m_watchedFolders w)")
  then have "out = report ts1" using assms(2) by (simp add: scanNetworkFolders_def)
  moreover have "\<forall>p\<in>set ts1. \<not> endsWith p ''.invalid''"
    using addTorrentsFromDirs_not_invalid [OF assms(1) s] by simp
  ultimately show ?thesis using set_report by blast
qed

lemma tick_reports_tracked:
  assumes "wellFormed w" "dispatch fs PartialTimeout w = Some (w', fs', out)"
  shows "out = report (map fst (filter (\<lambda>(p, n). specTransition fs p n = Reported) (m_partialTorrents w)))"
  using assms(2) unfolding dispatch_tick_eq [OF assms(1)] by (simp split: if_splits)

lemma dispatch_not_invalid:
  assumes "wellFormed w" "dispatch fs ev w = Some (w', fs', out)"
  shows "\<forall>b\<in>set out. \<forall>p\<in>set b. \<not> endsWith p ''.invalid''"
proof -
  have f: "m_filters w = [''*.torrent'', ''*.magnet'']"
    using assms(1) by (simp add: wellFormed_def)
  show ?thesis
  proof (cases ev)
    case (AddPath path)
    show ?thesis
    proof (cases "dirExists fs (QDir path) \<and> \<not> fst (isNetworkFileSystem fs path)")
      case True
      let ?w = "w\<lparr>watched := (if path \<in> set (watched w) then watched w else watched w @ [path])\<rparr>"
      obtain w1 where "scanLocalFolder fs path ?w = (w1, out)"
        using assms(2) AddPath True
        by (cases "scanLocalFolder fs path ?w") (auto simp: dispatch_def handle_def addPath_def Let_def)
      moreover have "m_filters ?w = [''*.torrent'', ''*.magnet'']" using f by simp
      ultimately show ?thesis using scanLocalFolder_not_invalid by blast
    next
      case False
      then have "out = []"
        using assms(2) AddPath
        by (auto simp: dispatch_def handle_def addPath_def Let_def split: if_splits option.splits)
      then show ?thesis by simp
    qed
  next
    case (RemovePath path)
    then have "out = []" using assms(2) by (auto simp: dispatch_def handle_def)
    then show ?thesis by simp
  next
    case (DirectoryChanged path)
    obtain w1 where "scanLocalFolder fs path w = (w1, out)"
      using assms(2) DirectoryChanged
      by (cases "scanLocalFolder fs path w") (auto simp: dispatch_def handle_def)
    with f show ?thesis using scanLocalFolder_not_invalid by blast
  next
    case WatchTimeout
    obtain w1 where "scanNetworkFolders fs w = (w1, out)"
      using assms(2) WatchTimeout
      by (cases "scanNetworkFolders fs w") (auto simp: dispatch_def handle_def)
    with f show ?thesis using scanNetworkFolders_not_invalid by blast
  next
    case PartialTimeout
    have o: "out = report (map fst (filter (\<lambda>(p, n). specTransition fs p n = Reported) (m_partialTorrents w)))"
      using assms PartialTimeout tick_reports_tracked by blast
    have "trackedOk (m_partialTorrents w)" using assms(1) by (simp add: wellFormed_def)
    from trackedOk_keys [OF this]
    have "\<forall>p\<in>set (map fst (m_partialTorrents w)). \<not> endsWith p ''.invalid''" by simp
    then have "\<forall>p\<in>set (map fst (filter (\<lambda>(p, n). specTransition fs p n = Reported) (m_partialTorrents w))).
        \<not> endsWith p ''.invalid''"
      by auto
    then show ?thesis unfolding o using set_report by blast
  qed
qed

subsection \<open>One tracked path at a tick\<close>

lemma rename_at_old:
  "map_of (files (rename old new fs)) old =
     (if fileExists fs old \<and> \<not> fileExists fs new \<and> \<not> renameFails fs old new then None
      else map_of (files fs) old)"
proof (cases "fileExists fs old \<and> \<not> fileExists fs new \<and> \<not> renameFails fs old new")
  case True
  then have "old \<noteq> new" by auto
  then show ?thesis using True by (simp add: rename_def map_of_rename_old)
next
  case False
  then show ?thesis by (auto simp: rename_def)
qed

lemma rename_at_new:
  "map_of (files (rename old new fs)) new =
     (if fileExists fs old \<and> \<not> fileExists fs new \<and> \<not> renameFails fs old new
      then map_of (files fs) old else map_of (files fs) new)"
  by (auto simp: rename_def fileExists_def map_of_rename_new)

lemma invalidate_agree:
  assumes "map_of (files a) p = map_of (files b) p"
    and "map_of (files a) (p @ ''.invalid'') = map_of (files b) (p @ ''.invalid'')"
    and "renameFails a = renameFails b"
    and "r = p \<or> r = p @ ''.invalid''"
  shows "map_of (files (invalidate a p)) r = map_of (files (invalidate b p)) r"
  using assms by (auto simp: invalidate_def rename_at_old rename_at_new fileExists_def)

lemma foldl_invalidate_frame: "renameFails (foldl invalidate fs qs) = renameFails fs"
  by (induction qs arbitrary: fs) (simp_all add: invalidate_def rename_frame)

lemma foldl_invalidate_other:
  "\<forall>q\<in>set qs. r \<noteq> q \<and> r \<noteq> q @ ''.invalid'' \<Longrightarrow>
     map_of (files (foldl invalidate fs qs)) r = map_of (files fs) r"
  by (induction qs arbitrary: fs) (simp_all add: invalidate_other)

lemma foldl_invalidate_one:
  assumes "distinct qs" "p \<in> set qs" "\<forall>q\<in>set qs. \<not> endsWith q ''.invalid''"
    and "r = p \<or> r = p @ ''.invalid''"
  shows "map_of (files (foldl invalidate fs qs)) r = map_of (files (invalidate fs p)) r"
proof -
  from assms(2) obtain qs1 qs2 where qs: "qs = qs1 @ p # qs2"
    by (auto dest: split_list)
  have np: "\<not> endsWith p ''.invalid''" using assms(2,3) by blast
  have far: "x \<noteq> q \<and> x \<noteq> q @ ''.invalid''"
    if "q \<in> set qs1 \<union> set qs2" "x = p \<or> x = p @ ''.invalid''" for q x
  proof -
    have "q \<noteq> p" using that(1) assms(1) qs by auto
    moreover have "\<not> endsWith q ''.invalid''" using that(1) assms(3) qs by auto
    then have "q \<noteq> p @ ''.invalid''" using endsWith_invalid by metis
    moreover have "q @ ''.invalid'' \<noteq> p" using np endsWith_invalid by metis
    ultimately show ?thesis using that(2) by auto
  qed
  let ?fs1 = "foldl invalidate fs qs1"
  have a: "map_of (files ?fs1) x = map_of (files fs) x" if "x = p \<or> x = p @ ''.invalid''" for x
    using far that by (intro foldl_invalidate_other) blast
  have "map_of (files (foldl invalidate fs qs)) r = map_of (files (invalidate ?fs1 p)) r"
    unfolding qs using far assms(4) by (simp add: foldl_invalidate_other)
  also have "\<dots> = map_of (files (invalidate fs p)) r"
    using a assms(4) by (intro invalidate_agree foldl_invalidate_frame) simp_all
  finally show ?thesis .
qed

lemma map_of_retried:
  "distinct (map fst d) \<Longrightarrow> (p, n) \<in> set d \<Longrightarrow>
     map_of (map (\<lambda>(p, n). (p, n + 1)) (filter Q d)) p = (if Q (p, n) then Some (n + (1::int)) else None)"
proof (induction d)
  case Nil
  then show ?case by simp
next
  case (Cons e d)
  then show ?case by (cases e) (force simp: map_of_eq_None_iff)
qed

lemma count_filtered_key:
  "distinct (map fst d) \<Longrightarrow> (p, n) \<in> set d \<Longrightarrow>
     count_list (map fst (filter Q d)) p = (if Q (p, n) then 1 else 0)"
proof (induction d)
  case Nil
  then show ?case by simp
next
  case (Cons e d)
  then show ?case by (cases e) (force simp: count_list_0_iff)
qed

lemma tick_result:
  assumes "wellFormed w" "dispatch fs PartialTimeout w = Some (w', fs', out)"
  shows "m_partialTorrents w' =
           map (\<lambda>(p, n). (p, n + 1))
             (filter (\<lambda>(p, n). specTransition fs p n = Retried) (m_partialTorrents w))"
    and "out = report (map fst (filter (\<lambda>(p, n). specTransition fs p n = Reported) (m_partialTorrents w)))"
    and "fs' = foldl invalidate fs
           (map fst (filter (\<lambda>(p, n). specTransition fs p n = Invalidated) (m_partialTorrents w)))"
  using assms(2) unfolding dispatch_tick_eq [OF assms(1)] by (auto split: if_splits)

lemma tick_possible:
  assumes "wellFormed w" "m_partialTorrents w \<noteq> []"
  shows "\<exists>w' fs' out. dispatch fs PartialTimeout w = Some (w', fs', out)"
  unfolding dispatch_tick_eq [OF assms(1)] using assms(2) by simp

lemma key_of_filtered:
  "distinct (map fst d) \<Longrightarrow> (p, n) \<in> set d \<Longrightarrow> p \<in> set (map fst (filter Q d)) \<longleftrightarrow> Q (p, n)"
proof -
  assume d: "distinct (map fst d)" and m: "(p, n) \<in> set d"
  show ?thesis
  proof
    assume "p \<in> set (map fst (filter Q d))"
    then obtain v where v: "(p, v) \<in> set d" "Q (p, v)" by auto
    then have "v = n" using d m eq_key_imp_eq_value by metis
    with v show "Q (p, n)" by simp
  next
    assume "Q (p, n)"
    then have "(p, n) \<in> set (filter Q d)" using m by simp
    then show "p \<in> set (map fst (filter Q d))" by force
  qed
qed

text \<open>
  What the three filters of a tick mean for one entry of the dictionary \<open>d\<close> it starts
  from: \<open>d'\<close> is the dictionary, \<open>out\<close> the signals and \<open>fs'\<close> the file system it leaves.
\<close>

lemma transition_entry:
  assumes tr: "trackedOk d" and ent: "(p, n) \<in> set d"
    and res:
      "d' = map (\<lambda>(p, n). (p, n + 1)) (filter (\<lambda>(p, n). specTransition fs p n = Retried) d)"
      "out = report (map fst (filter (\<lambda>(p, n). specTransition fs p n = Reported) d))"
      "fs' = foldl invalidate fs (map fst (filter (\<lambda>(p, n). specTransition fs p n = Invalidated) d))"
  shows "map_of d' p = (if specTransition fs p n = Retried then Some (n + 1) else None)"
    and "\<forall>b\<in>set out. count_list b p = (if specTransition fs p n = Reported then 1 else 0)"
    and "(\<exists>b\<in>set out. p \<in> set b) \<longleftrightarrow> specTransition fs p n = Reported"
    and "r = p \<or> r = p @ ''.invalid'' \<Longrightarrow>
         map_of (files fs') r =
           map_of (files (if specTransition fs p n = Invalidated then invalidate fs p else fs)) r"
proof -
  let ?d = "d"
  note k = trackedOk_keys [OF tr]
  have dist: "distinct (map fst ?d)" using k by simp
  have ninv: "\<forall>q\<in>set (map fst ?d). \<not> endsWith q ''.invalid''" using k by simp
  show "map_of d' p = (if specTransition fs p n = Retried then Some (n + 1) else None)"
    unfolding res(1) using map_of_retried [OF dist ent, of "\<lambda>(p, n). specTransition fs p n = Retried"]
    by simp
  have cnt: "count_list (map fst (filter (\<lambda>(p, n). specTransition fs p n = Reported) ?d)) p =
      (if specTransition fs p n = Reported then 1 else 0)"
    using count_filtered_key [OF dist ent, of "\<lambda>(p, n). specTransition fs p n = Reported"]
    by simp
  then show "\<forall>b\<in>set out. count_list b p = (if specTransition fs p n = Reported then 1 else 0)"
    unfolding res(2) by (auto dest!: set_report)
  have mem: "p \<in> set (map fst (filter (\<lambda>(p, n). specTransition fs p n = Reported) ?d)) \<longleftrightarrow>
      specTransition fs p n = Reported"
    using key_of_filtered [OF dist ent, of "\<lambda>(p, n). specTransition fs p n = Reported"] by simp
  show "(\<exists>b\<in>set out. p \<in> set b) \<longleftrightarrow> specTransition fs p n = Reported"
  proof
    assume "\<exists>b\<in>set out. p \<in> set b"
    then show "specTransition fs p n = Reported"
      unfolding res(2) using mem by (auto dest!: set_report)
  next
    assume "specTransition fs p n = Reported"
    then have "p \<in> set (map fst (filter (\<lambda>(p, n). specTransition fs p n = Reported) ?d))"
      using mem by simp
    moreover from this
    have "map fst (filter (\<lambda>(p, n). specTransition fs p n = Reported) ?d) \<noteq> []"
      by (metis empty_iff empty_set)
    ultimately show "\<exists>b\<in>set out. p \<in> set b"
      unfolding res(2) report_def by simp
  qed
  show "map_of (files fs') r =
           map_of (files (if specTransition fs p n = Invalidated then invalidate fs p else fs)) r"
    if r: "r = p \<or> r = p @ ''.invalid''"
  proof (cases "specTransition fs p n = Invalidated")
    case True
    let ?qs = "map fst (filter (\<lambda>(p, n). specTransition fs p n = Invalidated) ?d)"
    have "p \<in> set ?qs"
      using key_of_filtered [OF dist ent, of "\<lambda>(p, n). specTransition fs p n = Invalidated"] True
      by simp
    moreover have "distinct ?qs" using dist by (rule distinct_map_filter)
    moreover have "\<forall>q\<in>set ?qs. \<not> endsWith q ''.invalid''" using ninv by auto
    ultimately show ?thesis
      unfolding res(3) using r True by (simp add: foldl_invalidate_one)
  next
    case False
    let ?qs = "map fst (filter (\<lambda>(p, n). specTransition fs p n = Invalidated) ?d)"
    have pk: "p \<in> set (map fst ?d)" using ent by force
    have np: "p \<notin> set ?qs"
      using key_of_filtered [OF dist ent, of "\<lambda>(p, n). specTransition fs p n = Invalidated"] False
      by simp
    have "r \<noteq> q \<and> r \<noteq> q @ ''.invalid''" if "q \<in> set ?qs" for q
    proof -
      have qk: "q \<in> set (map fst ?d)" using that by auto
      have "q \<noteq> p" using that np by auto
      moreover have "q \<noteq> p @ ''.invalid''" using qk ninv endsWith_invalid by metis
      moreover have "p \<noteq> q @ ''.invalid''" using pk ninv endsWith_invalid by metis
      ultimately show ?thesis using r by auto
    qed
    then have "map_of (files (foldl invalidate fs ?qs)) r = map_of (files fs) r"
      by (intro foldl_invalidate_other) blast
    then show ?thesis unfolding res(3) using False by simp
  qed
qed

lemma tick_entry:
  assumes "wellFormed w" "dispatch fs PartialTimeout w = Some (w', fs', out)"
    and "(p, n) \<in> set (m_partialTorrents w)"
  shows "map_of (m_partialTorrents w') p = (if specTransition fs p n = Retried then Some (n + 1) else None)"
    and "\<forall>b\<in>set out. count_list b p = (if specTransition fs p n = Reported then 1 else 0)"
    and "(\<exists>b\<in>set out. p \<in> set b) \<longleftrightarrow> specTransition fs p n = Reported"
    and "r = p \<or> r = p @ ''.invalid'' \<Longrightarrow>
         map_of (files fs') r =
           map_of (files (if specTransition fs p n = Invalidated then invalidate fs p else fs)) r"
proof -
  have tr: "trackedOk (m_partialTorrents w)" using assms(1) by (simp add: wellFormed_def)
  note e = transition_entry [OF tr assms(3) tick_result [OF assms(1,2)]]
  show "map_of (m_partialTorrents w') p = (if specTransition fs p n = Retried then Some (n + 1) else None)"
    by (rule e(1))
  show "\<forall>b\<in>set out. count_list b p = (if specTransition fs p n = Reported then 1 else 0)"
    by (rule e(2))
  show "(\<exists>b\<in>set out. p \<in> set b) \<longleftrightarrow> specTransition fs p n = Reported"
    by (rule e(3))
  show "map_of (files fs') r =
           map_of (files (if specTransition fs p n = Invalidated then invalidate fs p else fs)) r"
    if "r = p \<or> r = p @ ''.invalid''"
    using that by (rule e(4))
qed


subsection \<open>The example runs\<close>

lemma run_five_ticks:
  "map_option fst (run (tickRun (replicate 5 exampleFs)) localWatcher) = Some exhaustedWatcher"
  by code_simp

lemma reachable_exhaustedWatcher: "reachable exhaustedWatcher"
  using reachable_localWatcher run_five_ticks by (rule reachable_run)

lemma dispatch_rescan_four:
  "map_option fst (dispatch fourFs (DirectoryChanged ''/watch'') exhaustedWatcher) = Some fourWatcher"
  by code_simp

lemma reachable_fourWatcher: "reachable fourWatcher"
  using reachable_exhaustedWatcher dispatch_rescan_four by (rule reachable_dispatch)

lemma sixth_tick_files:
  "map_option (files \<circ> fst \<circ> snd) (dispatch exampleFs PartialTimeout exhaustedWatcher)
     = Some (files invalidatedFs)"
  by code_simp

lemma dispatch_scan_invalidated:
  "map_option fst (dispatch invalidatedFs (DirectoryChanged ''/watch'') drainedWatcher)
     = Some drainedWatcher"
  by code_simp

subsection \<open>Runs\<close>

lemma returnToEventLoop_partials: "m_partialTorrents (returnToEventLoop w) = m_partialTorrents w"
  by (simp add: returnToEventLoop_def split: option.splits)

lemma addTorrentsFromDir_scan:
  assumes "addTorrentsFromDir fs dir (w, ts) = (w', ts')" "\<forall>q\<in>set ts. readyNow fs q"
  shows "(\<exists>ext. m_partialTorrents w' = m_partialTorrents w @ ext) \<and> (\<forall>q\<in>set ts'. readyNow fs q)"
proof -
  from addTorrentsFromDir_result [OF assms(1)] obtain new where
    "m_partialTorrents w' = m_partialTorrents w @ map (\<lambda>p. (p, 0)) new"
    and "ts' = ts @ filter (readyNow fs) (map (absoluteFilePath dir) (entryList fs (m_filters w) dir))"
    by blast
  with assms(2) show ?thesis by auto
qed

lemma addTorrentsFromDirs_scan:
  "foldl (\<lambda>acc dir. addTorrentsFromDir fs dir acc) (w, ts) dirs = (w', ts') \<Longrightarrow>
   \<forall>q\<in>set ts. readyNow fs q \<Longrightarrow>
   (\<exists>ext. m_partialTorrents w' = m_partialTorrents w @ ext) \<and> (\<forall>q\<in>set ts'. readyNow fs q)"
proof (induction dirs arbitrary: w ts)
  case Nil
  then show ?case by simp
next
  case (Cons dir dirs)
  obtain w1 ts1 where s: "addTorrentsFromDir fs dir (w, ts) = (w1, ts1)"
    by (cases "addTorrentsFromDir fs dir (w, ts)")
  from addTorrentsFromDir_scan [OF s Cons.prems(2)] obtain ext1 where
    e1: "m_partialTorrents w1 = m_partialTorrents w @ ext1" and r1: "\<forall>q\<in>set ts1. readyNow fs q"
    by blast
  have "foldl (\<lambda>acc dir. addTorrentsFromDir fs dir acc) (w1, ts1) dirs = (w', ts')"
    using Cons.prems(1) s by simp
  from Cons.IH [OF this r1] obtain ext2 where
    "m_partialTorrents w' = m_partialTorrents w1 @ ext2" and r2: "\<forall>q\<in>set ts'. readyNow fs q"
    by blast
  then have "m_partialTorrents w' = m_partialTorrents w @ (ext1 @ ext2)" using e1 by simp
  with r2 show ?case by blast
qed

lemma scanLocalFolder_scan:
  assumes "scanLocalFolder fs path w = (w', out)"
  shows "(\<exists>ext. m_partialTorrents w' = m_partialTorrents w @ ext) \<and>
         (\<forall>b\<in>set out. \<forall>q\<in>set b. readyNow fs q)"
proof -
  obtain w1 ts1 where s: "addTorrentsFromDir fs (QDir path) (w, []) = (w1, ts1)"
    by (cases "addTorrentsFromDir fs (QDir path) (w, [])")
  then have o: "out = report ts1" and w: "w' = w1" using assms by (simp_all add: scanLocalFolder_def)
  from addTorrentsFromDir_scan [OF s] show ?thesis unfolding o w using set_report by fastforce
qed

lemma scanNetworkFolders_scan:
  assumes "scanNetworkFolders fs w = (w', out)"
  shows "(\<exists>ext. m_partialTorrents w' = m_partialTorrents w @ ext) \<and>
         (\<forall>b\<in>set out. \<forall>q\<in>set b. readyNow fs q)"
proof -
  obtain w1 ts1 where
    s: "foldl (\<lambda>acc dir. addTorrentsFromDir fs dir acc) (w, []) (m_watchedFolders w) = (w1, ts1)"
    by (cases "foldl (\<lambda>acc dir. addTorrentsFromDir fs dir acc) (w, []) (m_watchedFolders w)")
  then have o: "out = report ts1" and w: "w' = w1" using assms by (simp_all add: scanNetworkFolders_def)
  from addTorrentsFromDirs_scan [OF s] show ?thesis unfolding o w using set_report by fastforce
qed

lemma addPath_scan:
  assumes "addPath fs path w = (w', out)"
  shows "(\<exists>ext. m_partialTorrents w' = m_partialTorrents w @ ext) \<and>
         (\<forall>b\<in>set out. \<forall>q\<in>set b. readyNow fs q)"
proof (cases "dirExists fs (QDir path) \<and> \<not> fst (isNetworkFileSystem fs path)")
  case True
  let ?w = "w\<lparr>watched := (if path \<in> set (watched w) then watched w else watched w @ [path])\<rparr>"
  have "scanLocalFolder fs path ?w = (w', out)" using assms True by (simp add: addPath_def Let_def)
  from scanLocalFolder_scan [OF this] show ?thesis by simp
next
  case False
  then have "m_partialTorrents w' = m_partialTorrents w @ []" and "out = []"
    using assms by (auto simp: addPath_def Let_def split: if_splits option.splits)
  then show ?thesis by simp
qed

lemma dispatch_scan:
  assumes "ev \<noteq> PartialTimeout" "dispatch fs ev w = Some (w', fs', out)"
  shows "(\<exists>ext. m_partialTorrents w' = m_partialTorrents w @ ext) \<and>
         (\<forall>b\<in>set out. \<forall>q\<in>set b. readyNow fs q)"
proof (cases ev)
  case (AddPath path)
  obtain w1 o1 where a: "addPath fs path w = (w1, o1)" by (cases "addPath fs path w")
  then have "w' = returnToEventLoop w1" "out = o1"
    using assms(2) AddPath by (simp_all add: dispatch_def handle_def)
  with addPath_scan [OF a] show ?thesis by (simp add: returnToEventLoop_partials)
next
  case (RemovePath path)
  then have "w' = returnToEventLoop (removePath fs path w)" "out = []"
    using assms(2) by (auto simp: dispatch_def handle_def)
  moreover have "m_partialTorrents (removePath fs path w) = m_partialTorrents w @ []"
    by (simp add: removePath_def split: option.splits)
  ultimately show ?thesis by (simp add: returnToEventLoop_partials)
next
  case (DirectoryChanged path)
  obtain w1 o1 where a: "scanLocalFolder fs path w = (w1, o1)" by (cases "scanLocalFolder fs path w")
  then have "w' = returnToEventLoop w1" "out = o1"
    using assms(2) DirectoryChanged by (simp_all add: dispatch_def handle_def)
  with scanLocalFolder_scan [OF a] show ?thesis by (simp add: returnToEventLoop_partials)
next
  case WatchTimeout
  obtain w1 o1 where a: "scanNetworkFolders fs w = (w1, o1)" by (cases "scanNetworkFolders fs w")
  then have "w' = returnToEventLoop w1" "out = o1"
    using assms(2) WatchTimeout by (simp_all add: dispatch_def handle_def)
  with scanNetworkFolders_scan [OF a] show ?thesis by (simp add: returnToEventLoop_partials)
next
  case PartialTimeout
  with assms(1) show ?thesis by simp
qed

lemma dispatch_total:
  "ev \<noteq> PartialTimeout \<Longrightarrow> \<exists>w' fs' out. dispatch fs ev w = Some (w', fs', out)"
  by (cases ev) (auto simp: dispatch_def handle_def split: prod.splits)

lemma map_of_extends: "map_of d p = Some n \<Longrightarrow> map_of (d @ ext) p = Some n"
  by (simp add: map_add_def)

lemma specTransition_failing:
  "fileExists fs p \<Longrightarrow> \<not> isValid fs p \<Longrightarrow>
     specTransition fs p n = (if n \<ge> MAX_PARTIAL_RETRIES then Invalidated else Retried)"
  by (simp add: specTransition_def)

lemma tracked_not_magnet:
  assumes "wellFormed w" "map_of (m_partialTorrents w) p = Some n"
  shows "\<not> endsWith p ''.magnet''" and "\<not> endsWith p ''.invalid''" and "0 \<le> n" and "n \<le> MAX_PARTIAL_RETRIES"
proof -
  have "(p, n) \<in> set (m_partialTorrents w)" using assms(2) by (rule map_of_SomeD)
  moreover have "trackedOk (m_partialTorrents w)" using assms(1) by (simp add: wellFormed_def)
  ultimately show "\<not> endsWith p ''.magnet''" and "\<not> endsWith p ''.invalid''" and "0 \<le> n"
    and "n \<le> MAX_PARTIAL_RETRIES"
    by (auto simp: trackedOk_def)
qed

text \<open>One event, seen from a tracked path whose file exists and does not validate.\<close>

lemma event_failing_entry:
  assumes "wellFormed w" "map_of (m_partialTorrents w) p = Some n"
    and f: "ev = PartialTimeout \<longrightarrow> fileExists fs p \<and> \<not> isValid fs p"
  shows "\<exists>w' fs' out. dispatch fs ev w = Some (w', fs', out) \<and> wellFormed w' \<and>
           map_of (m_partialTorrents w') p =
             (if ev = PartialTimeout then (if n < MAX_PARTIAL_RETRIES then Some (n + 1) else None)
              else Some n) \<and>
           (\<not> isValid fs p \<longrightarrow> (\<forall>b\<in>set out. p \<notin> set b)) \<and>
           (ev = PartialTimeout \<longrightarrow> (\<forall>r. r = p \<or> r = p @ ''.invalid'' \<longrightarrow>
              map_of (files fs') r =
                map_of (files (if n < MAX_PARTIAL_RETRIES then fs else invalidate fs p)) r))"
proof (cases "ev = PartialTimeout")
  case True
  have mem: "(p, n) \<in> set (m_partialTorrents w)" using assms(2) by (rule map_of_SomeD)
  then have "m_partialTorrents w \<noteq> []" by auto
  with assms(1) obtain w' fs' out where d: "dispatch fs PartialTimeout w = Some (w', fs', out)"
    using tick_possible by blast
  have st: "specTransition fs p n = (if n \<ge> MAX_PARTIAL_RETRIES then Invalidated else Retried)"
    using f True by (simp add: specTransition_failing)
  note e = tick_entry [OF assms(1) d mem]
  have 1: "map_of (m_partialTorrents w') p = (if n < MAX_PARTIAL_RETRIES then Some (n + 1) else None)"
    using e(1) st by simp
  have 2: "\<forall>b\<in>set out. p \<notin> set b" using e(3) st by (auto split: if_splits)
  have 3: "\<forall>r. r = p \<or> r = p @ ''.invalid'' \<longrightarrow>
              map_of (files fs') r =
                map_of (files (if n < MAX_PARTIAL_RETRIES then fs else invalidate fs p)) r"
    using e(4) st by (auto split: if_splits)
  have "wellFormed w'" using assms(1) d by (rule wellFormed_dispatch)
  with d 1 2 3 True show ?thesis by simp
next
  case False
  then obtain w' fs' out where d: "dispatch fs ev w = Some (w', fs', out)"
    using dispatch_total by blast
  from dispatch_scan [OF False d] obtain ext where
    x: "m_partialTorrents w' = m_partialTorrents w @ ext" and r: "\<forall>b\<in>set out. \<forall>q\<in>set b. readyNow fs q"
    by blast
  have 1: "map_of (m_partialTorrents w') p = Some n"
    unfolding x using assms(2) by (rule map_of_extends)
  have "\<not> isValid fs p \<longrightarrow> \<not> readyNow fs p"
    using tracked_not_magnet(1) [OF assms(1,2)] by (simp add: readyNow_def)
  with r have 2: "\<not> isValid fs p \<longrightarrow> (\<forall>b\<in>set out. p \<notin> set b)" by blast
  have "wellFormed w'" using assms(1) d by (rule wellFormed_dispatch)
  with d 1 2 False show ?thesis by simp
qed

lemma ticks_Cons:
  "ticks ((fs, ev) # evs) = (if ev = PartialTimeout then Suc (ticks evs) else ticks evs)"
  by (simp add: ticks_def)

lemma run_failing_entry:
  assumes "wellFormed w" "map_of (m_partialTorrents w) p = Some n"
    and "\<forall>(fs, ev)\<in>set evs. ev = PartialTimeout \<longrightarrow> fileExists fs p \<and> \<not> isValid fs p"
    and "n + int (ticks evs) \<le> MAX_PARTIAL_RETRIES"
  shows "\<exists>w' outs. run evs w = Some (w', outs) \<and> wellFormed w' \<and>
           map_of (m_partialTorrents w') p = Some (n + int (ticks evs)) \<and>
           ((\<forall>(fs, ev)\<in>set evs. \<not> isValid fs p) \<longrightarrow> (\<forall>b\<in>set outs. p \<notin> set b))"
  using assms
proof (induction evs arbitrary: w n)
  case Nil
  then show ?case by (simp add: ticks_def)
next
  case (Cons e evs)
  obtain fs ev where e: "e = (fs, ev)" by (cases e)
  have f: "ev = PartialTimeout \<longrightarrow> fileExists fs p \<and> \<not> isValid fs p"
    using Cons.prems(3) e by simp
  have below: "ev = PartialTimeout \<longrightarrow> n < MAX_PARTIAL_RETRIES"
    using Cons.prems(4) by (auto simp: e ticks_Cons)
  let ?n1 = "if ev = PartialTimeout then n + 1 else n"
  from event_failing_entry [OF Cons.prems(1,2) f] below obtain w1 fs1 o1 where
    d: "dispatch fs ev w = Some (w1, fs1, o1)" and wf1: "wellFormed w1"
    and c1: "map_of (m_partialTorrents w1) p = Some ?n1"
    and b1: "\<not> isValid fs p \<longrightarrow> (\<forall>b\<in>set o1. p \<notin> set b)"
    by (auto split: if_splits)
  have rest: "\<forall>(fs, ev)\<in>set evs. ev = PartialTimeout \<longrightarrow> fileExists fs p \<and> \<not> isValid fs p"
    using Cons.prems(3) by simp
  have bound: "?n1 + int (ticks evs) \<le> MAX_PARTIAL_RETRIES"
    using Cons.prems(4) by (auto simp: e ticks_Cons split: if_splits)
  from Cons.IH [OF wf1 c1 rest bound] obtain w' outs where
    r: "run evs w1 = Some (w', outs)" and wf': "wellFormed w'"
    and c: "map_of (m_partialTorrents w') p = Some (?n1 + int (ticks evs))"
    and b: "(\<forall>(fs, ev)\<in>set evs. \<not> isValid fs p) \<longrightarrow> (\<forall>b\<in>set outs. p \<notin> set b)"
    by blast
  have "run (e # evs) w = Some (w', o1 @ outs)" using d r by (simp add: e)
  moreover have "map_of (m_partialTorrents w') p = Some (n + int (ticks (e # evs)))"
    using c by (auto simp: e ticks_Cons split: if_splits)
  moreover have "(\<forall>(fs, ev)\<in>set (e # evs). \<not> isValid fs p) \<longrightarrow> (\<forall>b\<in>set (o1 @ outs). p \<notin> set b)"
    using b1 b by (auto simp: e)
  ultimately show ?case using wf' by blast
qed

subsection \<open>Runs of ticks\<close>

lemma contains_map_of: "contains d p \<longleftrightarrow> map_of d p \<noteq> None"
  by (simp add: contains_def map_of_eq_None_iff)

lemma set_tickRun: "e \<in> set (tickRun fss) \<longleftrightarrow> (\<exists>fs\<in>set fss. e = (fs, PartialTimeout))"
  by (auto simp: tickRun_def)

lemma ticks_tickRun: "ticks (tickRun fss) = length fss"
  by (simp add: ticks_def tickRun_def comp_def)

lemma tick_failing_entry:
  assumes "wellFormed w" "map_of (m_partialTorrents w) p = Some n"
    and "fileExists fs p" "\<not> isValid fs p"
  shows "\<exists>w' fs' out. dispatch fs PartialTimeout w = Some (w', fs', out) \<and> wellFormed w' \<and>
           map_of (m_partialTorrents w') p = (if n < MAX_PARTIAL_RETRIES then Some (n + 1) else None) \<and>
           (\<forall>b\<in>set out. p \<notin> set b) \<and>
           (\<forall>r. r = p \<or> r = p @ ''.invalid'' \<longrightarrow>
              map_of (files fs') r =
                map_of (files (if n < MAX_PARTIAL_RETRIES then fs else invalidate fs p)) r)"
  using event_failing_entry [OF assms(1,2), of PartialTimeout fs] assms(3,4) by simp

subsection \<open>Reports and tracking\<close>

lemma tick_reported:
  assumes "wellFormed w" "dispatch fs PartialTimeout w = Some (w', fs', out)"
    and "b \<in> set out" "p \<in> set b"
  shows "contains (m_partialTorrents w) p" and "isValid fs p"
    and "\<not> contains (m_partialTorrents w') p" and "count_list b p = 1"
proof -
  note res = tick_result [OF assms(1,2)]
  have b: "b = map fst (filter (\<lambda>(p, n). specTransition fs p n = Reported) (m_partialTorrents w))"
    using assms(3) unfolding res(2) by (rule set_report)
  with assms(4) obtain n where mem: "(p, n) \<in> set (m_partialTorrents w)"
    and st: "specTransition fs p n = Reported" by auto
  note e = tick_entry [OF assms(1,2) mem]
  show "contains (m_partialTorrents w) p" using mem unfolding contains_def by force
  show "isValid fs p" using st by (simp add: specTransition_def split: if_splits)
  show "\<not> contains (m_partialTorrents w') p" using e(1) st by (simp add: contains_map_of)
  show "count_list b p = 1" using e(2) st assms(3) by simp
qed


subsection \<open>Deferred deletion\<close>

text \<open>
  When a tick drains the dictionary the handler leaves the timer in place, stopped and
  marked for deletion; the handle reads null once control is back in the event loop.
\<close>

lemma handle_tick_drained:
  assumes "wellFormed w" "handle fs PartialTimeout w = Some (w1, fs1, out)"
    and "m_partialTorrents w1 = []"
  shows "(\<exists>t. m_partialTorrentTimer w1 = Some t \<and> \<not> active t \<and> deleteLaterCalled t) \<and>
         m_partialTorrentTimer (returnToEventLoop w1) = None"
proof -
  have tr: "trackedOk (m_partialTorrents w)" using assms(1) by (simp add: wellFormed_def)
  from assms(2) obtain t where t: "m_partialTorrentTimer w = Some t"
    by (cases "m_partialTorrentTimer w")
       (auto simp: handle_def processPartialTorrents_def split: prod.splits)
  show ?thesis
    using assms(2,3) unfolding handle_def
    by (auto simp: processPartialTorrents_eq [OF tr t] returnToEventLoop_def split: if_splits)
qed

text \<open>
  While such a timer is still there \<^verbatim>\<open>startPartialTorrentTimer\<close> finds the handle
  non-null and creates nothing. The reachable states are the states between two events
  each of which ends in the event loop.
\<close>

lemma startPartialTorrentTimer_pending:
  "m_partialTorrentTimer w = Some t \<Longrightarrow> startPartialTorrentTimer w = w"
  by (simp add: startPartialTorrentTimer_def)

text \<open>
  When every event ends in the event loop, the reconciliation timer exists between two
  events, and then it is armed, exactly when \<^verbatim>\<open>m_partialTorrents\<close> is not empty; in
  particular, once the dictionary has drained the timer is gone, and an event that
  leaves a partial file registered (a scan) leaves an armed single-shot timer.
\<close>

lemma partialTimer_iff_partialTorrents:
  assumes "reachable w"
  shows "((\<exists>t. m_partialTorrentTimer w = Some t \<and> active t) \<longleftrightarrow> m_partialTorrents w \<noteq> []) \<and>
         (m_partialTorrentTimer w = None \<longleftrightarrow> m_partialTorrents w = []) \<and>
         (\<forall>fs ev w' fs' out.
            m_partialTorrents w = [] \<and> dispatch fs ev w = Some (w', fs', out) \<and>
            m_partialTorrents w' \<noteq> [] \<longrightarrow>
              (\<exists>t. m_partialTorrentTimer w' = Some t \<and> active t \<and> singleShot t \<and>
                   interval t = WATCH_INTERVAL))"
proof -
  have wf: "wellFormed w" using assms by (rule reachable_wellFormed)
  then have a: "(\<exists>t. m_partialTorrentTimer w = Some t \<and> active t) \<longleftrightarrow> m_partialTorrents w \<noteq> []"
    and b: "m_partialTorrentTimer w = None \<longleftrightarrow> m_partialTorrents w = []"
    by (auto simp: wellFormed_def split: option.splits)
  have c: "\<exists>t. m_partialTorrentTimer w' = Some t \<and> active t \<and> singleShot t \<and>
                   interval t = WATCH_INTERVAL"
    if e: "m_partialTorrents w = []" and d: "dispatch fs ev w = Some (w', fs', out)"
      and ne: "m_partialTorrents w' \<noteq> []" for fs ev w' fs' out
  proof -
    have "wellFormed w'" using wf d by (rule wellFormed_dispatch)
    with ne show ?thesis by (auto simp: wellFormed_def split: option.splits)
  qed
  from a b c show ?thesis by blast
qed

lemma partialTimer_iff_partialTorrents_example:
  "reachable drainedWatcher \<and> m_partialTorrents drainedWatcher = [] \<and>
   m_partialTorrentTimer drainedWatcher = None \<and>
   map_option fst (dispatch exampleFs (DirectoryChanged ''/watch'') drainedWatcher) = Some localWatcher \<and>
   m_partialTorrents localWatcher = [(''/watch/b.torrent'', 0)] \<and>
   (\<exists>t. m_partialTorrentTimer localWatcher = Some t \<and> active t \<and> singleShot t \<and>
        interval t = WATCH_INTERVAL)"
proof -
  note T = partialTimer_iff_partialTorrents [OF reachable_drainedWatcher]
  have e: "m_partialTorrents drainedWatcher = []"
    by (simp add: drainedWatcher_def)
  have p: "m_partialTorrents localWatcher = [(''/watch/b.torrent'', 0)]"
    by (simp add: localWatcher_def)
  from dispatch_rescan obtain fs' out where
    d: "dispatch exampleFs (DirectoryChanged ''/watch'') drainedWatcher = Some (localWatcher, fs', out)"
    by auto
  from T e have 1: "m_partialTorrentTimer drainedWatcher = None" by blast
  have "m_partialTorrents localWatcher \<noteq> []" using p by simp
  with T e d have 2: "\<exists>t. m_partialTorrentTimer localWatcher = Some t \<and> active t \<and> singleShot t \<and>
        interval t = WATCH_INTERVAL" by blast
  from reachable_drainedWatcher e 1 dispatch_rescan p 2 show ?thesis by blast
qed

subsection \<open>Handlers in any order\<close>

lemma wellFormed_sound: "wellFormed w \<Longrightarrow> sound w"
  by (simp add: wellFormed_def sound_def)

lemma sound_tracked: "sound w \<Longrightarrow> trackedOk (m_partialTorrents w)"
  by (simp add: sound_def)

lemma sound_filters: "sound w \<Longrightarrow> m_filters w = [''*.torrent'', ''*.magnet'']"
  by (simp add: sound_def)

lemma sound_frame:
  assumes "sound w" "m_filters w' = m_filters w" "trackedOk (m_partialTorrents w')"
    and "m_watchTimer w' = m_watchTimer w" "m_watchedFolders w' = m_watchedFolders w"
  shows "sound w'"
  using assms unfolding sound_def by (auto split: option.splits)

lemma registered_paths_ok:
  assumes "m_filters w = [''*.torrent'', ''*.magnet'']"
    and "p \<in> set (map (absoluteFilePath dir) (entryList fs (m_filters w) dir))"
    and "\<not> readyNow fs p"
  shows "\<not> endsWith p ''.invalid'' \<and> \<not> endsWith p ''.magnet''"
proof -
  from assms(2) obtain n where n: "n \<in> set (entryList fs (m_filters w) dir)" "p = absoluteFilePath dir n"
    by auto
  from n(1) have "matchesFilters [''*.torrent'', ''*.magnet''] n"
    using set_entryList assms(1) by metis
  then have "\<not> endsWith p ''.invalid''" using n(2) listed_not_invalid by simp
  with assms(3) show ?thesis by (simp add: readyNow_def)
qed

lemma sound_addTorrentsFromDir:
  assumes "sound w" "addTorrentsFromDir fs dir (w, ts) = (w', ts')"
  shows "sound w'"
proof -
  from addTorrentsFromDir_result [OF assms(2)] obtain new where
    d: "m_partialTorrents w' = m_partialTorrents w @ map (\<lambda>p. (p, 0)) new"
    and dn: "distinct new"
    and s: "set new = {p \<in> set (map (absoluteFilePath dir) (entryList fs (m_filters w) dir)).
                        \<not> readyNow fs p \<and> \<not> contains (m_partialTorrents w) p}"
    by blast
  have "\<forall>p\<in>set new. \<not> endsWith p ''.invalid'' \<and> \<not> endsWith p ''.magnet''"
    using s registered_paths_ok [OF sound_filters [OF assms(1)]] by blast
  moreover have "\<forall>p\<in>set new. \<not> contains (m_partialTorrents w) p" using s by simp
  ultimately have "trackedOk (m_partialTorrents w')"
    unfolding d using sound_tracked [OF assms(1)] dn trackedOk_append by blast
  with assms(1) addTorrentsFromDir_frame [OF assms(2)] show ?thesis
    by (intro sound_frame [of w w']) simp_all
qed

lemma sound_addTorrentsFromDirs:
  "sound w \<Longrightarrow> foldl (\<lambda>acc dir. addTorrentsFromDir fs dir acc) (w, ts) dirs = (w', ts') \<Longrightarrow>
     sound w'"
proof (induction dirs arbitrary: w ts)
  case Nil
  then show ?case by simp
next
  case (Cons dir dirs)
  obtain w1 ts1 where s: "addTorrentsFromDir fs dir (w, ts) = (w1, ts1)"
    by (cases "addTorrentsFromDir fs dir (w, ts)")
  then have "sound w1" using Cons.prems(1) sound_addTorrentsFromDir by blast
  then show ?case using Cons.IH Cons.prems(2) s by simp
qed

lemma sound_scanLocalFolder:
  "sound w \<Longrightarrow> scanLocalFolder fs path w = (w', out) \<Longrightarrow> sound w'"
  by (auto simp: scanLocalFolder_def split: prod.splits dest: sound_addTorrentsFromDir)

lemma sound_scanNetworkFolders:
  "sound w \<Longrightarrow> scanNetworkFolders fs w = (w', out) \<Longrightarrow> sound w'"
  by (auto simp: scanNetworkFolders_def split: prod.splits dest: sound_addTorrentsFromDirs)

lemma sound_addPath:
  assumes "sound w" "addPath fs path w = (w', out)"
  shows "sound w'"
proof (cases "dirExists fs (QDir path) \<and> \<not> fst (isNetworkFileSystem fs path)")
  case True
  have "sound (w\<lparr>watched := (if path \<in> set (watched w) then watched w else watched w @ [path])\<rparr>)"
    using assms(1) by (auto simp: sound_def split: option.splits)
  then show ?thesis
    using True assms(2) sound_scanLocalFolder by (simp add: addPath_def Let_def)
next
  case False
  then show ?thesis
    using assms by (auto simp: addPath_def Let_def sound_def split: if_splits option.splits)
qed

lemma sound_removePath: "sound w \<Longrightarrow> sound (removePath fs path w)"
  by (auto simp: removePath_def sound_def split: option.splits dest: removeFirst_Some)

lemma sound_returnToEventLoop: "sound w \<Longrightarrow> sound (returnToEventLoop w)"
  by (auto simp: returnToEventLoop_def sound_def split: option.splits)

text \<open>A tick, as its handler leaves the watcher, in three equations.\<close>

lemma handle_tick_result:
  assumes "trackedOk (m_partialTorrents w)" "handle fs PartialTimeout w = Some (w', fs', out)"
  shows "m_partialTorrents w' =
           map (\<lambda>(p, n). (p, n + 1))
             (filter (\<lambda>(p, n). specTransition fs p n = Retried) (m_partialTorrents w))"
    and "out = report (map fst (filter (\<lambda>(p, n). specTransition fs p n = Reported) (m_partialTorrents w)))"
    and "fs' = foldl invalidate fs
           (map fst (filter (\<lambda>(p, n). specTransition fs p n = Invalidated) (m_partialTorrents w)))"
    and "m_filters w' = m_filters w \<and> m_watchTimer w' = m_watchTimer w \<and>
         m_watchedFolders w' = m_watchedFolders w \<and> watched w' = watched w"
proof -
  from assms(2) obtain t where t: "m_partialTorrentTimer w = Some t"
    by (cases "m_partialTorrentTimer w")
       (auto simp: handle_def processPartialTorrents_def split: prod.splits)
  note eq = processPartialTorrents_eq [OF assms(1) t, of fs]
  from assms(2) have p: "processPartialTorrents fs w = Some (w', fs', out)"
    by (simp add: handle_def)
  show "m_partialTorrents w' =
           map (\<lambda>(p, n). (p, n + 1))
             (filter (\<lambda>(p, n). specTransition fs p n = Retried) (m_partialTorrents w))"
    using p unfolding eq by auto
  show "out = report (map fst (filter (\<lambda>(p, n). specTransition fs p n = Reported) (m_partialTorrents w)))"
    using p unfolding eq by auto
  show "fs' = foldl invalidate fs
           (map fst (filter (\<lambda>(p, n). specTransition fs p n = Invalidated) (m_partialTorrents w)))"
    using p unfolding eq by auto
  show "m_filters w' = m_filters w \<and> m_watchTimer w' = m_watchTimer w \<and>
         m_watchedFolders w' = m_watchedFolders w \<and> watched w' = watched w"
    using p unfolding eq by auto
qed

lemma sound_tick:
  assumes "sound w" "handle fs PartialTimeout w = Some (w', fs', out)"
  shows "sound w'"
proof -
  note res = handle_tick_result [OF sound_tracked [OF assms(1)] assms(2)]
  have "trackedOk (m_partialTorrents w')"
    unfolding res(1) using sound_tracked [OF assms(1)] by (rule trackedOk_tick)
  with assms(1) res(4) show ?thesis by (intro sound_frame [of w w']) simp_all
qed

lemma sound_handle:
  assumes "sound w" "handle fs ev w = Some (w', fs', out)"
  shows "sound w'"
proof (cases ev)
  case PartialTimeout
  then show ?thesis using assms sound_tick by blast
next
  case (AddPath path)
  then show ?thesis
    using assms by (auto simp: handle_def split: prod.splits dest: sound_addPath)
next
  case (RemovePath path)
  then show ?thesis using assms by (auto simp: handle_def intro: sound_removePath)
next
  case (DirectoryChanged path)
  then show ?thesis
    using assms by (auto simp: handle_def split: prod.splits dest: sound_scanLocalFolder)
next
  case WatchTimeout
  then show ?thesis
    using assms by (auto simp: handle_def split: prod.splits dest: sound_scanNetworkFolders)
qed

lemma anyOrder_sound: "reachableAnyOrder w \<Longrightarrow> sound w"
proof (induction rule: reachableAnyOrder.induct)
  case anyOrder_init
  show ?case using wellFormed_init by (rule wellFormed_sound)
next
  case (anyOrder_handle w fs ev w' fs' out)
  then show ?case using sound_handle by blast
next
  case (anyOrder_eventLoop w)
  from anyOrder_eventLoop.IH show ?case by (rule sound_returnToEventLoop)
qed

lemma reachable_anyOrder: "reachable w \<Longrightarrow> reachableAnyOrder w"
proof (induction rule: reachable.induct)
  case reachable_init
  show ?case by (rule anyOrder_init)
next
  case (reachable_step w fs ev w' fs' out)
  from reachable_step.hyps(2) obtain w1 where
    h: "handle fs ev w = Some (w1, fs', out)" and w': "w' = returnToEventLoop w1"
    by (auto simp: dispatch_def split: option.splits)
  from reachable_step.IH h have "reachableAnyOrder w1" by (rule anyOrder_handle)
  then show ?case unfolding w' by (rule anyOrder_eventLoop)
qed

subsection \<open>Runs with scans between the ticks\<close>









text \<open>
  A path that does not end in \<^verbatim>\<open>.magnet\<close> is in no batch of a run during which its
  file never validates.
\<close>

lemma run_never_reported:
  "wellFormed w \<Longrightarrow> \<not> endsWith p ''.magnet'' \<Longrightarrow>
   \<forall>(fs, ev)\<in>set evs. \<not> isValid fs p \<Longrightarrow>
   run evs w = Some (w', outs) \<Longrightarrow> \<forall>b\<in>set outs. p \<notin> set b"
proof (induction evs arbitrary: w outs)
  case Nil
  then show ?case by simp
next
  case (Cons e evs)
  obtain fs ev where e: "e = (fs, ev)" by (cases e)
  from Cons.prems(4) obtain w1 fs1 o1 outs1 where
    d: "dispatch fs ev w = Some (w1, fs1, o1)"
    and r: "run evs w1 = Some (w', outs1)" and o: "outs = o1 @ outs1"
    unfolding e by (auto split: option.splits)
  have wf1: "wellFormed w1" using Cons.prems(1) d by (rule wellFormed_dispatch)
  have nv: "\<not> isValid fs p" using Cons.prems(3) unfolding e by simp
  have 1: "\<forall>b\<in>set o1. p \<notin> set b"
  proof (cases "ev = PartialTimeout")
    case True
    with d have t: "dispatch fs PartialTimeout w = Some (w1, fs1, o1)" by simp
    show ?thesis using tick_reported(2) [OF Cons.prems(1) t] nv by blast
  next
    case False
    from dispatch_scan [OF False d] have "\<forall>b\<in>set o1. \<forall>q\<in>set b. readyNow fs q" by blast
    moreover have "\<not> readyNow fs p" using nv Cons.prems(2) by (simp add: readyNow_def)
    ultimately show ?thesis by blast
  qed
  have "\<forall>(fs, ev)\<in>set evs. \<not> isValid fs p" using Cons.prems(3) by simp
  from Cons.IH [OF wf1 Cons.prems(2) this r] 1 show ?case unfolding o by auto
qed





lemma run_six_ticks_scan:
  "run (tickRun (replicate 6 exampleFs) @ [(tickFs, DirectoryChanged ''/watch'')]) localWatcher
     = Some (scannedAgainWatcher, [[''/watch/ok.torrent'']])"
  by code_simp

section \<open>The claims\<close>

text \<open>
  C1: the claim is that adding the same network directory twice leaves one entry and
  one timer, so that a poll scans the directory once. The code appends the directory
  to \<^verbatim>\<open>m_watchedFolders\<close> without looking for it: after two calls the list holds it
  twice, under one timer, each poll scans it twice and reports its magnet link twice
  in one batch, and one \<^verbatim>\<open>removePath\<close> leaves it watched.
\<close>

theorem addPath_twice_network_duplicates:
  "m_watchedFolders (fst (addPath exampleFs ''/mnt/share'' networkWatcher))
     = [''/mnt/share'', ''/mnt/share''] \<and>
   m_watchTimer (fst (addPath exampleFs ''/mnt/share'' networkWatcher)) = m_watchTimer networkWatcher \<and>
   snd (scanNetworkFolders exampleFs networkWatcher) = [[''/mnt/share/a.magnet'']] \<and>
   snd (scanNetworkFolders exampleFs (fst (addPath exampleFs ''/mnt/share'' networkWatcher)))
     = [[''/mnt/share/a.magnet'', ''/mnt/share/a.magnet'']] \<and>
   m_watchedFolders (removePath exampleFs ''/mnt/share''
       (fst (addPath exampleFs ''/mnt/share'' networkWatcher)))
     = [''/mnt/share'']"
proof -
  have l: "entryList exampleFs [''*.torrent'', ''*.magnet''] ''/mnt/share'' = [''a.magnet'']"
    by (simp add: entryList_def exampleFs_def List.map_filter_def childName_def dirPrefix_def
        endsWith_def matchesFilters_def toLower_def isHidden_def)
  have s: "addTorrentsFromDir exampleFs ''/mnt/share'' (w, ts) = (w, ts @ [''/mnt/share/a.magnet''])"
    if "m_filters w = [''*.torrent'', ''*.magnet'']" "m_partialTorrents w = []" for w ts
    using that by (simp add: addTorrentsFromDir_def l addTorrentFile_def absoluteFilePath_def
        dirPrefix_def endsWith_def)
  show ?thesis
    by (simp add: networkWatcher_eq addPath_exampleFs_network scanNetworkFolders_def s
        FileSystemWatcher_def report_def removePath_def dirEquals_def QDir_def Let_def endsWith_def)
qed

text \<open>
  C2: the claim is that between two invocations the reconciliation timer exists and is
  armed exactly when a partial file is tracked. \<^verbatim>\<open>processPartialTorrents\<close> stops a
  drained timer and calls \<^verbatim>\<open>deleteLater()\<close>, which leaves the handle non-null until
  the event loop deletes the timer. When the poll timer has expired in the same pass
  of the event dispatcher, \<^verbatim>\<open>scanNetworkFolders\<close> runs before that: it registers a new
  partial file, \<^verbatim>\<open>startPartialTorrentTimer\<close> finds the handle non-null and creates
  nothing, and the event loop then deletes the timer. A partial file is tracked and
  no reconciliation timer exists.
\<close>

theorem scan_before_deferred_deletion:
  "map_option fst (run [(exampleFs, AddPath ''/watch''), (exampleFs, AddPath ''/mnt/share'')]
       FileSystemWatcher) = Some bothWatcher \<and>
   map_option fst (handle raceFs PartialTimeout bothWatcher) = Some stoppedWatcher \<and>
   map_option (snd \<circ> snd) (handle raceFs PartialTimeout bothWatcher) = Some [[''/watch/b.torrent'']] \<and>
   m_partialTorrents stoppedWatcher = [] \<and>
   m_partialTorrents (fst (scanNetworkFolders raceFs stoppedWatcher))
     = [(''/mnt/share/c.torrent'', 0)] \<and>
   m_partialTorrentTimer (fst (scanNetworkFolders raceFs stoppedWatcher))
     = Some \<lparr>interval = 10000, singleShot = True, active = False, deleteLaterCalled = True\<rparr> \<and>
   m_partialTorrents (returnToEventLoop (fst (scanNetworkFolders raceFs stoppedWatcher)))
     = [(''/mnt/share/c.torrent'', 0)] \<and>
   m_partialTorrentTimer (returnToEventLoop (fst (scanNetworkFolders raceFs stoppedWatcher))) = None"
  by code_simp

text \<open>
  C3: between two events the network poll timer exists, and then it runs, exactly when
  \<^verbatim>\<open>m_watchedFolders\<close> is not empty. In particular removing the only network
  directory, through any path that gives an equal \<^verbatim>\<open>QDir\<close>, destroys the timer,
  and adding a network directory afterwards creates a running, repeating one.
\<close>

theorem watchTimer_iff_watchedFolders:
  assumes "reachable w"
  shows "((\<exists>t. m_watchTimer w = Some t \<and> active t) \<longleftrightarrow> m_watchedFolders w \<noteq> []) \<and>
         (m_watchTimer w = None \<longleftrightarrow> m_watchedFolders w = []) \<and>
         (\<forall>fs0 d p. m_watchedFolders w = [d] \<and> dirEquals fs0 d (QDir p) \<longrightarrow>
            m_watchedFolders (removePath fs0 p w) = [] \<and> m_watchTimer (removePath fs0 p w) = None \<and>
            (\<forall>fs q. dirExists fs (QDir q) \<and> fst (isNetworkFileSystem fs q) \<longrightarrow>
               (\<exists>t. m_watchTimer (fst (addPath fs q (removePath fs0 p w))) = Some t \<and>
                    active t \<and> \<not> singleShot t \<and> interval t = WATCH_INTERVAL)))"
proof -
  have wf: "wellFormed w" using assms by (rule reachable_wellFormed)
  then have a: "(\<exists>t. m_watchTimer w = Some t \<and> active t) \<longleftrightarrow> m_watchedFolders w \<noteq> []"
    and b: "m_watchTimer w = None \<longleftrightarrow> m_watchedFolders w = []"
    by (auto simp: wellFormed_def split: option.splits)
  have c: "m_watchedFolders (removePath fs0 p w) = [] \<and> m_watchTimer (removePath fs0 p w) = None \<and>
            (\<forall>fs q. dirExists fs (QDir q) \<and> fst (isNetworkFileSystem fs q) \<longrightarrow>
               (\<exists>t. m_watchTimer (fst (addPath fs q (removePath fs0 p w))) = Some t \<and>
                    active t \<and> \<not> singleShot t \<and> interval t = WATCH_INTERVAL))"
    if "m_watchedFolders w = [d]" "dirEquals fs0 d (QDir p)" for fs0 d p
    using that by (simp add: removePath_def addPath_def Let_def)
  from a b c show ?thesis by blast
qed

theorem watchTimer_iff_watchedFolders_witness:
  "reachable networkWatcher \<and> m_watchedFolders networkWatcher = [''/mnt/share''] \<and>
   (\<exists>t. m_watchTimer networkWatcher = Some t \<and> active t) \<and>
   dirEquals exampleFs ''/mnt/share'' (QDir ''/mnt/share'') \<and>
   m_watchTimer (removePath exampleFs ''/mnt/share'' networkWatcher) = None \<and>
   dirExists exampleFs (QDir ''/mnt/share'') \<and> fst (isNetworkFileSystem exampleFs ''/mnt/share'') \<and>
   (\<exists>t. m_watchTimer (fst (addPath exampleFs ''/mnt/share''
             (removePath exampleFs ''/mnt/share'' networkWatcher)))
           = Some t \<and> active t \<and> \<not> singleShot t \<and> interval t = WATCH_INTERVAL)"
proof -
  note T = watchTimer_iff_watchedFolders [OF reachable_networkWatcher]
  have f: "m_watchedFolders networkWatcher = [''/mnt/share'']"
    by (simp add: networkWatcher_eq)
  have d: "dirExists exampleFs (QDir ''/mnt/share'')"
    by (simp add: exampleFs_def QDir_def Let_def endsWith_def)
  have q: "dirEquals exampleFs ''/mnt/share'' (QDir ''/mnt/share'')"
    by (simp add: dirEquals_def QDir_def Let_def endsWith_def)
  have n: "fst (isNetworkFileSystem exampleFs ''/mnt/share'')"
    by (simp add: exampleFs_def isNetworkFileSystem_def statfsFile_def endsWith_def
        NFS_SUPER_MAGIC_def)
  from T f have 1: "\<exists>t. m_watchTimer networkWatcher = Some t \<and> active t" by simp
  from T f q have 2: "m_watchTimer (removePath exampleFs ''/mnt/share'' networkWatcher) = None" by blast
  from T f q d n have 3: "\<exists>t. m_watchTimer (fst (addPath exampleFs ''/mnt/share''
      (removePath exampleFs ''/mnt/share'' networkWatcher))) = Some t \<and> active t \<and> \<not> singleShot t \<and>
      interval t = WATCH_INTERVAL" by blast
  from reachable_networkWatcher f 1 q 2 d n 3 show ?thesis by blast
qed




text \<open>
  C5, as claimed, fails: after exactly 5 failing ticks the entry of a file registered at
  0 is still tracked, with count 5, and the fifth tick has not renamed the file.
\<close>

theorem five_failing_ticks_counterexample:
  "map_of (m_partialTorrents localWatcher) ''/watch/b.torrent'' = Some 0 \<and>
   fileExists exampleFs ''/watch/b.torrent'' \<and> \<not> isValid exampleFs ''/watch/b.torrent'' \<and>
   map_option (m_partialTorrents \<circ> fst) (run (tickRun (replicate 5 exampleFs)) localWatcher)
     = Some [(''/watch/b.torrent'', 5)] \<and>
   map_option fst (run (tickRun (replicate 4 exampleFs)) localWatcher) = Some fourTicksWatcher \<and>
   map_option (m_partialTorrents \<circ> fst) (dispatch exampleFs PartialTimeout fourTicksWatcher)
     = Some [(''/watch/b.torrent'', 5)] \<and>
   map_option (files \<circ> fst \<circ> snd) (dispatch exampleFs PartialTimeout fourTicksWatcher)
     = Some (files exampleFs) \<and>
   \<not> fileExists exampleFs ''/watch/b.torrent.invalid''"
  by code_simp

text \<open>
  C5, amended: a file registered at count 0 that exists and fails validation whenever
  the watcher looks at it is still tracked, with count 5, after a run holding exactly
  5 ticks; the next tick, the sixth, removes the entry and applies
  \<^verbatim>\<open>QFile::rename\<close> to the file, which moves it to the name with the suffix
  \<^verbatim>\<open>.invalid\<close> unless a file of that name exists or the file system refuses; and
  the path is in no batch of
  any run, of whatever length and events, during which the file never validates.
\<close>

theorem six_failing_ticks_invalidate:
  assumes "reachable w" "map_of (m_partialTorrents w) p = Some 0"
    and "\<forall>(fs, ev)\<in>set evs. \<not> isValid fs p \<and> (ev = PartialTimeout \<longrightarrow> fileExists fs p)"
    and "int (ticks evs) = MAX_PARTIAL_RETRIES"
    and "fileExists fs p" "\<not> isValid fs p"
  shows "(\<exists>w5 outs w6 fs6 out.
           run evs w = Some (w5, outs) \<and>
           map_of (m_partialTorrents w5) p = Some MAX_PARTIAL_RETRIES \<and>
           dispatch fs PartialTimeout w5 = Some (w6, fs6, out) \<and>
           \<not> contains (m_partialTorrents w6) p \<and>
           (\<forall>b\<in>set (outs @ out). p \<notin> set b) \<and>
           (\<forall>r. r = p \<or> r = p @ ''.invalid'' \<longrightarrow>
              map_of (files fs6) r = map_of (files (rename p (p @ ''.invalid'') fs)) r) \<and>
           (\<not> fileExists fs (p @ ''.invalid'') \<and> \<not> renameFails fs p (p @ ''.invalid'') \<longrightarrow>
              \<not> fileExists fs6 p \<and> fileExists fs6 (p @ ''.invalid''))) \<and>
         (\<forall>evs' w' outs'.
            (\<forall>(fs, ev)\<in>set evs'. \<not> isValid fs p) \<and> run evs' w = Some (w', outs') \<longrightarrow>
            (\<forall>b\<in>set outs'. p \<notin> set b))"
proof -
  have wf: "wellFormed w" using assms(1) by (rule reachable_wellFormed)
  have f: "\<forall>(fs, ev)\<in>set evs. ev = PartialTimeout \<longrightarrow> fileExists fs p \<and> \<not> isValid fs p"
    using assms(3) by auto
  have nv: "\<forall>(fs, ev)\<in>set evs. \<not> isValid fs p" using assms(3) by auto
  have b: "0 + int (ticks evs) \<le> MAX_PARTIAL_RETRIES" using assms(4) by simp
  from run_failing_entry [OF wf assms(2) f b] obtain w5 outs where
    r: "run evs w = Some (w5, outs)" and wf5: "wellFormed w5"
    and c0: "map_of (m_partialTorrents w5) p = Some (0 + int (ticks evs))"
    and o0: "(\<forall>(fs, ev)\<in>set evs. \<not> isValid fs p) \<longrightarrow> (\<forall>b\<in>set outs. p \<notin> set b)"
    by blast
  have c: "map_of (m_partialTorrents w5) p = Some MAX_PARTIAL_RETRIES"
    using c0 assms(4) by simp
  have o: "\<forall>b\<in>set outs. p \<notin> set b" using o0 nv by (rule mp)
  from tick_failing_entry [OF wf5 c assms(5,6)] obtain w6 fs6 out where
    d: "dispatch fs PartialTimeout w5 = Some (w6, fs6, out)"
    and gone0: "map_of (m_partialTorrents w6) p =
        (if MAX_PARTIAL_RETRIES < MAX_PARTIAL_RETRIES then Some (MAX_PARTIAL_RETRIES + 1) else None)"
    and o6: "\<forall>b\<in>set out. p \<notin> set b"
    and fl0: "\<forall>r. r = p \<or> r = p @ ''.invalid'' \<longrightarrow>
              map_of (files fs6) r =
                map_of (files (if MAX_PARTIAL_RETRIES < MAX_PARTIAL_RETRIES then fs else invalidate fs p)) r"
    by blast
  have gone: "map_of (m_partialTorrents w6) p = None" using gone0 by simp
  have 1: "\<not> contains (m_partialTorrents w6) p" using gone by (simp add: contains_map_of)
  have 2: "\<forall>b\<in>set (outs @ out). p \<notin> set b" using o o6 by auto
  have 3: "\<forall>r. r = p \<or> r = p @ ''.invalid'' \<longrightarrow>
              map_of (files fs6) r = map_of (files (rename p (p @ ''.invalid'') fs)) r"
    using fl0 by (simp add: invalidate_def)
  have 4: "\<not> fileExists fs (p @ ''.invalid'') \<and> \<not> renameFails fs p (p @ ''.invalid'') \<longrightarrow>
              \<not> fileExists fs6 p \<and> fileExists fs6 (p @ ''.invalid'')"
  proof
    assume free: "\<not> fileExists fs (p @ ''.invalid'') \<and> \<not> renameFails fs p (p @ ''.invalid'')"
    from rename_done [OF assms(5) conjunct1 [OF free] conjunct2 [OF free]]
    have "\<not> fileExists (rename p (p @ ''.invalid'') fs) p"
      and "fileExists (rename p (p @ ''.invalid'') fs) (p @ ''.invalid'')" by simp_all
    then show "\<not> fileExists fs6 p \<and> fileExists fs6 (p @ ''.invalid'')"
      using 3 unfolding fileExists_def by simp
  qed
  have never: "\<forall>evs' w' outs'.
            (\<forall>(fs, ev)\<in>set evs'. \<not> isValid fs p) \<and> run evs' w = Some (w', outs') \<longrightarrow>
            (\<forall>b\<in>set outs'. p \<notin> set b)"
  proof (intro allI, rule impI)
    fix evs' w' outs'
    assume a: "(\<forall>(fs, ev)\<in>set evs'. \<not> isValid fs p) \<and> run evs' w = Some (w', outs')"
    have "\<not> endsWith p ''.magnet''" using wf assms(2) by (rule tracked_not_magnet(1))
    from run_never_reported [OF wf this conjunct1 [OF a] conjunct2 [OF a]]
    show "\<forall>b\<in>set outs'. p \<notin> set b" .
  qed
  have "\<exists>w5 outs w6 fs6 out.
           run evs w = Some (w5, outs) \<and>
           map_of (m_partialTorrents w5) p = Some MAX_PARTIAL_RETRIES \<and>
           dispatch fs PartialTimeout w5 = Some (w6, fs6, out) \<and>
           \<not> contains (m_partialTorrents w6) p \<and>
           (\<forall>b\<in>set (outs @ out). p \<notin> set b) \<and>
           (\<forall>r. r = p \<or> r = p @ ''.invalid'' \<longrightarrow>
              map_of (files fs6) r = map_of (files (rename p (p @ ''.invalid'') fs)) r) \<and>
           (\<not> fileExists fs (p @ ''.invalid'') \<and> \<not> renameFails fs p (p @ ''.invalid'') \<longrightarrow>
              \<not> fileExists fs6 p \<and> fileExists fs6 (p @ ''.invalid''))"
    by (intro exI [of _ w5] exI [of _ outs] exI [of _ w6] exI [of _ fs6] exI [of _ out] conjI
        r c d 1 2 3 4)
  then show ?thesis using never by (rule conjI)
qed

theorem six_failing_ticks_invalidate_witness:
  "reachable localWatcher \<and>
   map_of (m_partialTorrents localWatcher) ''/watch/b.torrent'' = Some 0 \<and>
   fileExists exampleFs ''/watch/b.torrent'' \<and> \<not> isValid exampleFs ''/watch/b.torrent'' \<and>
   int (ticks (tickRun (replicate 5 exampleFs))) = MAX_PARTIAL_RETRIES \<and>
   \<not> fileExists exampleFs (''/watch/b.torrent'' @ ''.invalid'') \<and>
   \<not> renameFails exampleFs ''/watch/b.torrent'' (''/watch/b.torrent'' @ ''.invalid'') \<and>
   (\<exists>w5 outs w6 fs6 out.
      run (tickRun (replicate 5 exampleFs)) localWatcher = Some (w5, outs) \<and>
      map_of (m_partialTorrents w5) ''/watch/b.torrent'' = Some MAX_PARTIAL_RETRIES \<and>
      dispatch exampleFs PartialTimeout w5 = Some (w6, fs6, out) \<and>
      \<not> contains (m_partialTorrents w6) ''/watch/b.torrent'' \<and>
      \<not> fileExists fs6 ''/watch/b.torrent'' \<and>
      fileExists fs6 (''/watch/b.torrent'' @ ''.invalid'')) \<and>
   \<not> isValid tickFs ''/watch/b.torrent'' \<and>
   map_option snd (run (tickRun (replicate 6 exampleFs) @ [(tickFs, DirectoryChanged ''/watch'')])
       localWatcher) = Some [[''/watch/ok.torrent'']] \<and>
   ''/watch/b.torrent'' \<notin> set (concat [[''/watch/ok.torrent'']])"
proof -
  have m: "map_of (m_partialTorrents localWatcher) ''/watch/b.torrent'' = Some 0"
    by (simp add: localWatcher_def)
  have e: "fileExists exampleFs ''/watch/b.torrent''" and v: "\<not> isValid exampleFs ''/watch/b.torrent''"
    by (simp_all add: fileExists_def isValid_def exampleFs_def)
  have k: "int (ticks (tickRun (replicate 5 exampleFs))) = MAX_PARTIAL_RETRIES"
    by (simp add: ticks_tickRun MAX_PARTIAL_RETRIES_def)
  have f: "\<forall>(fs, ev)\<in>set (tickRun (replicate 5 exampleFs)).
      \<not> isValid fs ''/watch/b.torrent'' \<and> (ev = PartialTimeout \<longrightarrow> fileExists fs ''/watch/b.torrent'')"
    using e v by (auto simp: set_tickRun)
  have vt: "\<not> isValid tickFs ''/watch/b.torrent''"
    by (simp add: isValid_def tickFs_def)
  have f7: "\<forall>(fs, ev)\<in>set (tickRun (replicate 6 exampleFs) @ [(tickFs, DirectoryChanged ''/watch'')]).
      \<not> isValid fs ''/watch/b.torrent''"
    using v vt by (auto simp: set_tickRun)
  have n: "\<not> fileExists exampleFs (''/watch/b.torrent'' @ ''.invalid'')"
    by (simp add: fileExists_def exampleFs_def)
  have nr: "\<not> renameFails exampleFs ''/watch/b.torrent'' (''/watch/b.torrent'' @ ''.invalid'')"
    by (simp add: exampleFs_def)
  note T = six_failing_ticks_invalidate [OF reachable_localWatcher m f k e v]
  obtain outs7 where r7: "run (tickRun (replicate 6 exampleFs) @ [(tickFs, DirectoryChanged ''/watch'')])
       localWatcher = Some (scannedAgainWatcher, outs7)"
    and o7: "outs7 = [[''/watch/ok.torrent'']]"
    using run_six_ticks_scan
    by (cases "run (tickRun (replicate 6 exampleFs) @ [(tickFs, DirectoryChanged ''/watch'')]) localWatcher")
       auto
  from conjunct2 [OF T] f7 r7 have "\<forall>b\<in>set outs7. ''/watch/b.torrent'' \<notin> set b" by blast
  then have 8: "''/watch/b.torrent'' \<notin> set (concat [[''/watch/ok.torrent'']])"
    unfolding o7 by simp
  have 9: "map_option snd (run (tickRun (replicate 6 exampleFs) @ [(tickFs, DirectoryChanged ''/watch'')])
       localWatcher) = Some [[''/watch/ok.torrent'']]"
    using r7 o7 by simp
  from conjunct1 [OF T]
  obtain w5 outs w6 fs6 out where
    1: "run (tickRun (replicate 5 exampleFs)) localWatcher = Some (w5, outs)"
    and 2: "map_of (m_partialTorrents w5) ''/watch/b.torrent'' = Some MAX_PARTIAL_RETRIES"
    and 3: "dispatch exampleFs PartialTimeout w5 = Some (w6, fs6, out)"
    and 4: "\<not> contains (m_partialTorrents w6) ''/watch/b.torrent''"
    and 5: "\<not> fileExists exampleFs (''/watch/b.torrent'' @ ''.invalid'') \<and>
            \<not> renameFails exampleFs ''/watch/b.torrent'' (''/watch/b.torrent'' @ ''.invalid'') \<longrightarrow>
              \<not> fileExists fs6 ''/watch/b.torrent'' \<and>
              fileExists fs6 (''/watch/b.torrent'' @ ''.invalid'')"
    by (elim exE conjE) (rule that; assumption)
  from 5 conjI [OF n nr] have 6: "\<not> fileExists fs6 ''/watch/b.torrent'' \<and>
              fileExists fs6 (''/watch/b.torrent'' @ ''.invalid'')" by (rule mp)
  have "\<exists>w5 outs w6 fs6 out.
      run (tickRun (replicate 5 exampleFs)) localWatcher = Some (w5, outs) \<and>
      map_of (m_partialTorrents w5) ''/watch/b.torrent'' = Some MAX_PARTIAL_RETRIES \<and>
      dispatch exampleFs PartialTimeout w5 = Some (w6, fs6, out) \<and>
      \<not> contains (m_partialTorrents w6) ''/watch/b.torrent'' \<and>
      \<not> fileExists fs6 ''/watch/b.torrent'' \<and>
      fileExists fs6 (''/watch/b.torrent'' @ ''.invalid'')"
    by (intro exI [of _ w5] exI [of _ outs] exI [of _ w6] exI [of _ fs6] exI [of _ out] conjI
        1 2 3 4 conjunct1 [OF 6] conjunct2 [OF 6])
  with reachable_localWatcher m e v k n nr vt 9 8 show ?thesis by (intro conjI)
qed

text \<open>
  C6, as claimed, fails: the entry is not removed when its count reaches the ceiling.
  An invalid file found by the first scan of a new watcher has count 5 after five
  failing ticks and is still tracked; the sixth tick removes it.
\<close>

theorem ceiling_reached_still_tracked_counterexample:
  "fileExists exampleFs ''/watch/b.torrent'' \<and> \<not> isValid exampleFs ''/watch/b.torrent'' \<and>
   MAX_PARTIAL_RETRIES = 5 \<and>
   map_option (m_partialTorrents \<circ> fst)
     (run ((exampleFs, AddPath ''/watch'') # tickRun (replicate 5 exampleFs)) FileSystemWatcher)
     = Some [(''/watch/b.torrent'', 5)] \<and>
   map_option (m_partialTorrents \<circ> fst)
     (run ((exampleFs, AddPath ''/watch'') # tickRun (replicate 6 exampleFs)) FileSystemWatcher)
     = Some []"
  by code_simp

text \<open>
  C6, amended: the retry count of a tracked path never exceeds the ceiling. In every
  reachable state every count lies between 0 and \<^verbatim>\<open>MAX_PARTIAL_RETRIES\<close>; a path
  registered at 0 whose file exists and fails validation at each tick is, after a run
  with \<open>k\<close> ticks, \<open>k\<close> at most the ceiling, still tracked with count \<open>k\<close>, whatever
  other events the run holds; and a tick that finds a failing file increments a count
  below the ceiling and removes an entry whose count is at the ceiling: the entry is
  removed by the failing tick that follows the one at which the ceiling is reached, and
  no count is incremented beyond.
\<close>

theorem retryCount_never_exceeds_ceiling:
  assumes "reachable w"
  shows "(\<forall>(p, n)\<in>set (m_partialTorrents w). 0 \<le> n \<and> n \<le> MAX_PARTIAL_RETRIES) \<and>
         (\<forall>p evs. map_of (m_partialTorrents w) p = Some 0 \<and>
              (\<forall>(fs, ev)\<in>set evs. ev = PartialTimeout \<longrightarrow> fileExists fs p \<and> \<not> isValid fs p) \<and>
              int (ticks evs) \<le> MAX_PARTIAL_RETRIES \<longrightarrow>
              (\<exists>w' outs. run evs w = Some (w', outs) \<and>
                 map_of (m_partialTorrents w') p = Some (int (ticks evs)))) \<and>
         (\<forall>fs p n w' fs' out. map_of (m_partialTorrents w) p = Some n \<and>
              fileExists fs p \<and> \<not> isValid fs p \<and>
              dispatch fs PartialTimeout w = Some (w', fs', out) \<longrightarrow>
              map_of (m_partialTorrents w') p
                = (if n < MAX_PARTIAL_RETRIES then Some (n + 1) else None))"
proof -
  have wf: "wellFormed w" using assms by (rule reachable_wellFormed)
  then have 1: "\<forall>(p, n)\<in>set (m_partialTorrents w). 0 \<le> n \<and> n \<le> MAX_PARTIAL_RETRIES"
    by (auto simp: wellFormed_def trackedOk_def)
  have 2: "\<exists>w' outs. run evs w = Some (w', outs) \<and>
                 map_of (m_partialTorrents w') p = Some (int (ticks evs))"
    if "map_of (m_partialTorrents w) p = Some 0"
      and "\<forall>(fs, ev)\<in>set evs. ev = PartialTimeout \<longrightarrow> fileExists fs p \<and> \<not> isValid fs p"
      and "int (ticks evs) \<le> MAX_PARTIAL_RETRIES" for p evs
    using run_failing_entry [OF wf that(1,2)] that(3) by auto
  have 3: "map_of (m_partialTorrents w') p
                = (if n < MAX_PARTIAL_RETRIES then Some (n + 1) else None)"
    if "map_of (m_partialTorrents w) p = Some n" "fileExists fs p" "\<not> isValid fs p"
       "dispatch fs PartialTimeout w = Some (w', fs', out)" for fs p n w' fs' out
    using event_failing_entry [OF wf that(1), of PartialTimeout fs] that(2-4) by auto
  from 1 2 3 show ?thesis by blast
qed

theorem retryCount_never_exceeds_ceiling_witness:
  "reachable localWatcher \<and>
   map_of (m_partialTorrents localWatcher) ''/watch/b.torrent'' = Some 0 \<and>
   fileExists exampleFs ''/watch/b.torrent'' \<and> \<not> isValid exampleFs ''/watch/b.torrent'' \<and>
   ticks (tickRun (replicate 3 exampleFs)) = 3 \<and>
   (\<exists>w' outs. run (tickRun (replicate 3 exampleFs)) localWatcher = Some (w', outs) \<and>
      map_of (m_partialTorrents w') ''/watch/b.torrent'' = Some 3)"
proof -
  note T = retryCount_never_exceeds_ceiling [OF reachable_localWatcher]
  have m: "map_of (m_partialTorrents localWatcher) ''/watch/b.torrent'' = Some 0"
    by (simp add: localWatcher_def)
  have e: "fileExists exampleFs ''/watch/b.torrent''" and v: "\<not> isValid exampleFs ''/watch/b.torrent''"
    by (simp_all add: fileExists_def isValid_def exampleFs_def)
  have k: "ticks (tickRun (replicate 3 exampleFs)) = 3"
    by (simp add: ticks_tickRun)
  have f: "\<forall>(fs, ev)\<in>set (tickRun (replicate 3 exampleFs)).
      ev = PartialTimeout \<longrightarrow> fileExists fs ''/watch/b.torrent'' \<and> \<not> isValid fs ''/watch/b.torrent''"
    using e v by (auto simp: set_tickRun)
  have b: "int (ticks (tickRun (replicate 3 exampleFs))) \<le> MAX_PARTIAL_RETRIES"
    by (simp add: k MAX_PARTIAL_RETRIES_def)
  from T m f b have "\<exists>w' outs. run (tickRun (replicate 3 exampleFs)) localWatcher = Some (w', outs) \<and>
      map_of (m_partialTorrents w') ''/watch/b.torrent'' = Some (int (ticks (tickRun (replicate 3 exampleFs))))"
    by blast
  then have "\<exists>w' outs. run (tickRun (replicate 3 exampleFs)) localWatcher = Some (w', outs) \<and>
      map_of (m_partialTorrents w') ''/watch/b.torrent'' = Some 3"
    unfolding k by simp
  with reachable_localWatcher m e v k show ?thesis by blast
qed

text \<open>
  C7: at a reconciliation tick every tracked path makes the transition of the
  specification, decided by its own file and count on the file system the tick
  starts from, whatever the other entries do: a path whose file is gone is dropped,
  not reported, its file left alone; a path that validates is dropped and is once in
  the batch; a path that fails with a count at the ceiling is dropped, not reported,
  and \<^verbatim>\<open>QFile::rename\<close> is applied to it; any other path stays with its count
  incremented. The whole tick is the three corresponding filters of the dictionary.
\<close>

theorem processPartialTorrents_transitions:
  assumes "reachable w" "dispatch fs PartialTimeout w = Some (w', fs', out)"
  shows "m_partialTorrents w' =
           map (\<lambda>(p, n). (p, n + 1))
             (filter (\<lambda>(p, n). specTransition fs p n = Retried) (m_partialTorrents w)) \<and>
         out = report (map fst
             (filter (\<lambda>(p, n). specTransition fs p n = Reported) (m_partialTorrents w))) \<and>
         fs' = foldl invalidate fs (map fst
             (filter (\<lambda>(p, n). specTransition fs p n = Invalidated) (m_partialTorrents w))) \<and>
         (\<forall>(p, n) \<in> set (m_partialTorrents w).
            map_of (m_partialTorrents w') p
              = (if specTransition fs p n = Retried then Some (n + 1) else None) \<and>
            ((\<exists>b\<in>set out. p \<in> set b) \<longleftrightarrow> specTransition fs p n = Reported) \<and>
            (\<forall>b\<in>set out. count_list b p = (if specTransition fs p n = Reported then 1 else 0)) \<and>
            (\<forall>r. r = p \<or> r = p @ ''.invalid'' \<longrightarrow>
               map_of (files fs') r =
                 map_of (files (if specTransition fs p n = Invalidated then invalidate fs p else fs)) r))"
proof -
  have wf: "wellFormed w" using assms(1) by (rule reachable_wellFormed)
  note res = tick_result [OF wf assms(2)]
  have "map_of (m_partialTorrents w') p
              = (if specTransition fs p n = Retried then Some (n + 1) else None) \<and>
            ((\<exists>b\<in>set out. p \<in> set b) \<longleftrightarrow> specTransition fs p n = Reported) \<and>
            (\<forall>b\<in>set out. count_list b p = (if specTransition fs p n = Reported then 1 else 0)) \<and>
            (\<forall>r. r = p \<or> r = p @ ''.invalid'' \<longrightarrow>
               map_of (files fs') r =
                 map_of (files (if specTransition fs p n = Invalidated then invalidate fs p else fs)) r)"
    if "(p, n) \<in> set (m_partialTorrents w)" for p n
    using tick_entry [OF wf assms(2) that] by blast
  with res show ?thesis by blast
qed

theorem processPartialTorrents_transitions_witness:
  "reachable fourWatcher \<and>
   m_partialTorrents fourWatcher =
     [(''/watch/b.torrent'', 5), (''/watch/slow.torrent'', 0), (''/watch/ok.torrent'', 0),
      (''/watch/gone.torrent'', 0)] \<and>
   map_option (m_partialTorrents \<circ> fst) (dispatch tickFs PartialTimeout fourWatcher)
     = Some [(''/watch/slow.torrent'', 1)] \<and>
   map_option (snd \<circ> snd) (dispatch tickFs PartialTimeout fourWatcher)
     = Some [[''/watch/ok.torrent'']] \<and>
   map_option (files \<circ> fst \<circ> snd) (dispatch tickFs PartialTimeout fourWatcher)
     = Some [(''/watch/b.torrent.invalid'', False), (''/watch/slow.torrent'', False),
             (''/watch/ok.torrent'', True)]"
proof -
  have wf: "wellFormed fourWatcher" using reachable_fourWatcher by (rule reachable_wellFormed)
  have "m_partialTorrents fourWatcher \<noteq> []" by (simp add: fourWatcher_def)
  with wf obtain w' fs' out where d: "dispatch tickFs PartialTimeout fourWatcher = Some (w', fs', out)"
    using tick_possible by blast
  note T = processPartialTorrents_transitions [OF reachable_fourWatcher d]
  have p: "m_partialTorrents fourWatcher =
     [(''/watch/b.torrent'', 5), (''/watch/slow.torrent'', 0), (''/watch/ok.torrent'', 0),
      (''/watch/gone.torrent'', 0)]"
    by (simp add: fourWatcher_def)
  have 1: "map (\<lambda>(p, n). (p, n + 1))
             (filter (\<lambda>(p, n). specTransition tickFs p n = Retried) (m_partialTorrents fourWatcher))
           = [(''/watch/slow.torrent'', 1)]"
    by code_simp
  have 2: "report (map fst
             (filter (\<lambda>(p, n). specTransition tickFs p n = Reported) (m_partialTorrents fourWatcher)))
           = [[''/watch/ok.torrent'']]"
    by code_simp
  have 3: "files (foldl invalidate tickFs (map fst
             (filter (\<lambda>(p, n). specTransition tickFs p n = Invalidated) (m_partialTorrents fourWatcher))))
           = [(''/watch/b.torrent.invalid'', False), (''/watch/slow.torrent'', False),
             (''/watch/ok.torrent'', True)]"
    by code_simp
  from T 1 have a: "m_partialTorrents w' = [(''/watch/slow.torrent'', 1)]" by simp
  from T 2 have b: "out = [[''/watch/ok.torrent'']]" by simp
  from T 3 have c: "files fs' = [(''/watch/b.torrent.invalid'', False), (''/watch/slow.torrent'', False),
             (''/watch/ok.torrent'', True)]" by simp
  from reachable_fourWatcher p a b c show ?thesis by (simp add: d)
qed

text \<open>
  C8: the claim is that a scan puts every listed magnet link into its batch without
  validating it. The listing ignores case and \<^verbatim>\<open>endsWith(".magnet")\<close> does not: the
  magnet link \<^verbatim>\<open>X.MAGNET\<close> is listed under \<^verbatim>\<open>*.magnet\<close>, fails the test for the
  extension, is given to the validator and, not being a torrent file, is registered as
  partial instead of being reported; the sixth tick renames it. Its neighbour
  \<^verbatim>\<open>y.magnet\<close> is reported at once.
\<close>

theorem uppercase_magnet_not_reported:
  "entryList upperCaseFs (m_filters FileSystemWatcher) ''/watch'' = [''X.MAGNET'', ''y.magnet''] \<and>
   wildcardMatch ''*.magnet'' ''X.MAGNET'' \<and>
   \<not> endsWith (absoluteFilePath ''/watch'' ''X.MAGNET'') ''.magnet'' \<and>
   snd (scanLocalFolder upperCaseFs ''/watch'' FileSystemWatcher) = [[''/watch/y.magnet'']] \<and>
   m_partialTorrents upperCaseWatcher = [(''/watch/X.MAGNET'', 0)] \<and>
   map_option (m_partialTorrents \<circ> fst) (run (tickRun (replicate 5 upperCaseFs)) upperCaseWatcher)
     = Some [(''/watch/X.MAGNET'', 5)] \<and>
   map_option snd (run (tickRun (replicate 6 upperCaseFs)) upperCaseWatcher) = Some [] \<and>
   map_option (files \<circ> fst \<circ> snd)
       (dispatch upperCaseFs PartialTimeout
          (upperCaseWatcher\<lparr>m_partialTorrents := [(''/watch/X.MAGNET'', 5)]\<rparr>))
     = Some [(''/watch/X.MAGNET.invalid'', False), (''/watch/y.magnet'', False)]"
  by code_simp

text \<open>
  C9: \<^verbatim>\<open>isNetworkFileSystem\<close> answers Network exactly when \<^verbatim>\<open>statfs\<close> succeeds and
  the type it reports is the CIFS, the NFS or the SMB magic number; whenever the query
  fails, or reports another type, the answer is Local, a plain \<^verbatim>\<open>bool\<close> with no error
  for the caller.
\<close>

theorem isNetworkFileSystem_network_iff:
  "fst (isNetworkFileSystem fs path) =
     (\<exists>t. statfs fs (statfsFile path) = Inr t \<and>
          (t = CIFS_MAGIC_NUMBER \<or> t = NFS_SUPER_MAGIC \<or> t = SMB_SUPER_MAGIC))"
  by (cases "statfs fs (statfsFile path)") (simp_all add: isNetworkFileSystem_def)

text \<open>
  C10: a name that ends in the suffix \<^verbatim>\<open>.invalid\<close> matches neither \<^verbatim>\<open>*.torrent\<close> nor
  \<^verbatim>\<open>*.magnet\<close>. So, in every state the watcher can reach and on every file system, no
  directory listing returns a renamed file, and whatever the event, no batch it emits
  contains a path of the form \<^verbatim>\<open>q.invalid\<close> and no such path is tracked afterwards.
\<close>

theorem invalid_suffix_never_seen:
  assumes "reachable w" "dispatch fs ev w = Some (w', fs', out)"
  shows "(\<forall>q. \<not> wildcardMatch ''*.torrent'' (q @ ''.invalid'') \<and>
              \<not> wildcardMatch ''*.magnet'' (q @ ''.invalid'') \<and>
              \<not> matchesFilters (m_filters w) (q @ ''.invalid'')) \<and>
         (\<forall>dir q. q @ ''.invalid'' \<notin> set (entryList fs (m_filters w) dir) \<and>
              q @ ''.invalid'' \<notin> set (map (absoluteFilePath dir) (entryList fs (m_filters w) dir))) \<and>
         (\<forall>q. \<forall>b\<in>set out. q @ ''.invalid'' \<notin> set b) \<and>
         (\<forall>q. \<not> contains (m_partialTorrents w') (q @ ''.invalid''))"
proof -
  have wf: "wellFormed w" using assms(1) by (rule reachable_wellFormed)
  then have f: "m_filters w = [''*.torrent'', ''*.magnet'']" by (simp add: wellFormed_def)
  have wf': "wellFormed w'" using wf assms(2) by (rule wellFormed_dispatch)
  have 1: "\<not> wildcardMatch ''*.torrent'' (q @ ''.invalid'') \<and>
           \<not> wildcardMatch ''*.magnet'' (q @ ''.invalid'') \<and>
           \<not> matchesFilters (m_filters w) (q @ ''.invalid'')" for q
    using invalid_name_unmatched [of q] unfolding f by (simp add: matchesFilters_def)
  have 2: "q @ ''.invalid'' \<notin> set (entryList fs (m_filters w) dir) \<and>
           q @ ''.invalid'' \<notin> set (map (absoluteFilePath dir) (entryList fs (m_filters w) dir))" for dir q
  proof -
    have "q @ ''.invalid'' \<notin> set (entryList fs (m_filters w) dir)"
      using 1 set_entryList by blast
    moreover have ni: "\<not> endsWith (absoluteFilePath dir n) ''.invalid''"
      if "n \<in> set (entryList fs (m_filters w) dir)" for n
      using that set_entryList listed_not_invalid f by metis
    have "q @ ''.invalid'' \<notin> set (map (absoluteFilePath dir) (entryList fs (m_filters w) dir))"
    proof
      assume "q @ ''.invalid'' \<in> set (map (absoluteFilePath dir) (entryList fs (m_filters w) dir))"
      then obtain n where n: "n \<in> set (entryList fs (m_filters w) dir)"
        and e: "absoluteFilePath dir n = q @ ''.invalid''" by auto
      have "endsWith (absoluteFilePath dir n) ''.invalid''"
        unfolding e by (rule endsWith_invalid)
      with ni [OF n] show False by simp
    qed
    ultimately show ?thesis by simp
  qed
  have 3: "\<forall>b\<in>set out. q @ ''.invalid'' \<notin> set b" for q
    using dispatch_not_invalid [OF wf assms(2)] endsWith_invalid by blast
  have 4: "\<not> contains (m_partialTorrents w') (q @ ''.invalid'')" for q
  proof -
    have "trackedOk (m_partialTorrents w')" using wf' by (simp add: wellFormed_def)
    from trackedOk_keys [OF this]
    have "\<forall>p\<in>set (map fst (m_partialTorrents w')). \<not> endsWith p ''.invalid''" by simp
    then show ?thesis unfolding contains_def using endsWith_invalid by blast
  qed
  from 1 2 3 4 show ?thesis by blast
qed

theorem invalid_suffix_never_seen_witness:
  "reachable drainedWatcher \<and>
   map_option (files \<circ> fst \<circ> snd) (dispatch exampleFs PartialTimeout exhaustedWatcher)
     = Some (files invalidatedFs) \<and>
   fileExists invalidatedFs ''/watch/b.torrent.invalid'' \<and>
   \<not> wildcardMatch ''*.torrent'' ''b.torrent.invalid'' \<and>
   \<not> wildcardMatch ''*.magnet'' ''b.torrent.invalid'' \<and>
   ''b.torrent.invalid'' \<notin> set (entryList invalidatedFs (m_filters drainedWatcher) ''/watch'') \<and>
   map_option fst (dispatch invalidatedFs (DirectoryChanged ''/watch'') drainedWatcher)
     = Some drainedWatcher \<and>
   \<not> contains (m_partialTorrents drainedWatcher) ''/watch/b.torrent.invalid''"
proof -
  from dispatch_scan_invalidated obtain fs' out where
    d: "dispatch invalidatedFs (DirectoryChanged ''/watch'') drainedWatcher = Some (drainedWatcher, fs', out)"
    by auto
  note T = invalid_suffix_never_seen [OF reachable_drainedWatcher d]
  have e: "fileExists invalidatedFs ''/watch/b.torrent.invalid''"
    by code_simp
  have n: "''b.torrent'' @ ''.invalid'' = ''b.torrent.invalid''"
    and a: "''/watch/b.torrent'' @ ''.invalid'' = ''/watch/b.torrent.invalid''"
    by simp_all
  from T have "\<not> wildcardMatch ''*.torrent'' (''b.torrent'' @ ''.invalid'') \<and>
     \<not> wildcardMatch ''*.magnet'' (''b.torrent'' @ ''.invalid'')" by blast
  then have 1: "\<not> wildcardMatch ''*.torrent'' ''b.torrent.invalid'' \<and>
     \<not> wildcardMatch ''*.magnet'' ''b.torrent.invalid''" unfolding n .
  from T have "''b.torrent'' @ ''.invalid'' \<notin> set (entryList invalidatedFs (m_filters drainedWatcher) ''/watch'')"
    by blast
  then have 2: "''b.torrent.invalid'' \<notin> set (entryList invalidatedFs (m_filters drainedWatcher) ''/watch'')"
    unfolding n .
  from T have "\<not> contains (m_partialTorrents drainedWatcher) (''/watch/b.torrent'' @ ''.invalid'')"
    by blast
  then have 3: "\<not> contains (m_partialTorrents drainedWatcher) ''/watch/b.torrent.invalid''"
    unfolding a .
  from reachable_drainedWatcher sixth_tick_files e 1 2 dispatch_scan_invalidated 3
  show ?thesis by blast
qed

end
